theory Spec2Isabelle
  imports Complex_Main "HOL-Library.Multiset" "HOL-Library.Word"
begin

section \<open>Data model\<close>

text \<open>
  The Go types of the rule engine.  A \<^verbatim>\<open>uuid.UUID\<close> is a 16-byte array, hence a
  128-bit word.  A \<^verbatim>\<open>time.Time\<close> is an instant, modelled as the (unbounded) number of
  nanoseconds since a fixed epoch (all timestamps are taken to be wall-clock readings on
  one time line); a \<^verbatim>\<open>time.Duration\<close> is an \<^verbatim>\<open>int64\<close> count of
  nanoseconds.  \<^verbatim>\<open>decimal.Decimal\<close> is an exact decimal, modelled as a rational.
\<close>

type_synonym UUID = "128 word"
type_synonym Time = int
type_synonym Duration = int

record Transaction =
  UserID :: UUID
  Amount :: rat
  Country :: string
  CreatedAt :: Time

record VelocityPeriod =
  Duration :: Duration
  Threshold :: int

definition NewVelocityPeriod :: "Duration \<Rightarrow> int \<Rightarrow> VelocityPeriod" where
  "NewVelocityPeriod period threshold = \<lparr>Duration = period, Threshold = threshold\<rparr>"

definition Hour :: Duration where
  "Hour = 3600 * 1000000000"

definition year :: Duration where
  "year = 365 * 24 * Hour"

definition month :: Duration where
  "month = 30 * 24 * Hour"

definition week :: Duration where
  "week = 7 * 24 * Hour"

subsection \<open>The two operations of \<^verbatim>\<open>time.Time\<close> the evaluators use\<close>

definition minDuration :: Duration where
  "minDuration = - (2 ^ 63)"

definition maxDuration :: Duration where
  "maxDuration = 2 ^ 63 - 1"

text \<open>\<^verbatim>\<open>t.Sub(u)\<close> is the duration \<open>t - u\<close>, saturated to the range of \<^verbatim>\<open>int64\<close>.\<close>

definition Sub :: "Time \<Rightarrow> Time \<Rightarrow> Duration" where
  "Sub t u = (if t - u < minDuration then minDuration
              else if maxDuration < t - u then maxDuration
              else t - u)"

definition Before :: "Time \<Rightarrow> Time \<Rightarrow> bool" where
  "Before t u \<longleftrightarrow> t < u"

section \<open>The velocity rule\<close>

text \<open>
  The three evaluators carry the same three methods \<^verbatim>\<open>hasViolatedVelocityPeriods\<close>,
  \<^verbatim>\<open>hasViolatedVelocity\<close> and the sort before them, word for word; they are modelled
  once.  A receiver is represented by the one field these methods read, its periods.
\<close>

text \<open>
  The inner loop of \<^verbatim>\<open>hasViolatedVelocity\<close>:
  \<^verbatim>\<open>for left <= right && txs[right].CreatedAt.Sub(txs[left].CreatedAt) > period.Duration { left++ }\<close>
\<close>

function advanceLeft :: "Transaction list \<Rightarrow> VelocityPeriod \<Rightarrow> nat \<Rightarrow> nat \<Rightarrow> nat" where
  "advanceLeft txs period right left =
     (if left \<le> right \<and> Sub (CreatedAt (txs ! right)) (CreatedAt (txs ! left)) > Duration period
      then advanceLeft txs period right (left + 1)
      else left)"
  by pat_completeness auto
termination
  by (relation "measure (\<lambda>(txs, period, right, left). Suc right - left)") auto

text \<open>
  The outer loop, started at \<open>left = 0\<close>, \<open>right = 0\<close>.  Both indices stay within the
  slice: \<open>left \<le> right < len(txs)\<close> whenever an element is read.
\<close>

function velocityLoop :: "Transaction list \<Rightarrow> VelocityPeriod \<Rightarrow> nat \<Rightarrow> nat \<Rightarrow> bool" where
  "velocityLoop txs period left right =
     (if right < length txs then
        (let left' = advanceLeft txs period right left;
             windowSize = int right - int left' + 1
         in if windowSize > Threshold period then True
            else velocityLoop txs period left' (right + 1))
      else False)"
  by pat_completeness auto
termination
  by (relation "measure (\<lambda>(txs, period, left, right). length txs - right)") auto

declare advanceLeft.simps [simp del] velocityLoop.simps [simp del]

definition hasViolatedVelocity :: "Transaction list \<Rightarrow> VelocityPeriod \<Rightarrow> bool" where
  "hasViolatedVelocity txs period = velocityLoop txs period 0 0"

fun hasViolatedVelocityPeriods :: "VelocityPeriod list \<Rightarrow> Transaction list \<Rightarrow> bool" where
  "hasViolatedVelocityPeriods [] txs = False"
| "hasViolatedVelocityPeriods (period # periods) txs =
     (if hasViolatedVelocity txs period then True
      else hasViolatedVelocityPeriods periods txs)"

section \<open>Partitioning and the sequential evaluator\<close>

text \<open>
  \<^verbatim>\<open>userTransactions[tx.UserID] = append(userTransactions[tx.UserID], tx)\<close>: a missing
  key reads as the nil slice.  The map is kept as an association list whose keys are
  distinct; the order of its entries is the order in which \<^verbatim>\<open>range\<close> visits them.
\<close>

definition lookupTxs :: "(UUID \<times> Transaction list) list \<Rightarrow> UUID \<Rightarrow> Transaction list" where
  "lookupTxs m k = (case map_of m k of None \<Rightarrow> [] | Some txs \<Rightarrow> txs)"

fun assign :: "'k \<Rightarrow> 'v \<Rightarrow> ('k \<times> 'v) list \<Rightarrow> ('k \<times> 'v) list" where
  "assign k v [] = [(k, v)]"
| "assign k v ((k', v') # m) = (if k = k' then (k, v) # m else (k', v') # assign k v m)"

definition groupByUser :: "Transaction list \<Rightarrow> (UUID \<times> Transaction list) list" where
  "groupByUser transactions =
     foldl (\<lambda>m tx. assign (UserID tx) (lookupTxs m (UserID tx) @ [tx]) m) [] transactions"

text \<open>
  \<^verbatim>\<open>sort.Slice(txs, func(i, j) { return txs[i].CreatedAt.Before(txs[j].CreatedAt) })\<close>
  orders the slice by timestamp.  \<^verbatim>\<open>sort.Slice\<close> does not say in which order it leaves
  transactions with equal timestamps; the model keeps their order.
\<close>

definition sortSlice :: "Transaction list \<Rightarrow> Transaction list" where
  "sortSlice txs = sort_key CreatedAt txs"

text \<open>
  Sorting one user's slice and checking every period: the body of the loop over users in
  \<^verbatim>\<open>VelocityProcessor.Process\<close>, and of \<^verbatim>\<open>processUser\<close> in the two concurrent
  evaluators.
\<close>

definition sortAndCheck :: "VelocityPeriod list \<Rightarrow> Transaction list \<Rightarrow> bool" where
  "sortAndCheck periods txs = hasViolatedVelocityPeriods periods (sortSlice txs)"

definition flagUsers :: "VelocityPeriod list \<Rightarrow> (UUID \<times> Transaction list) list \<Rightarrow> UUID set \<Rightarrow> UUID set" where
  "flagUsers periods jobs flaggedUsers =
     fold (\<lambda>(userID, txs) flagged. if sortAndCheck periods txs then insert userID flagged else flagged)
       jobs flaggedUsers"

definition Process :: "VelocityPeriod list \<Rightarrow> Transaction list \<Rightarrow> UUID set" where
  "Process periods transactions = flagUsers periods (groupByUser transactions) {}"

section \<open>The rule engine\<close>

record 'p RuleEngine =
  processors :: "'p list"

definition NewRuleEngine :: "'p list \<Rightarrow> 'p RuleEngine" where
  "NewRuleEngine validators = \<lparr>processors = []\<rparr>"

definition AddRuleProcessor :: "'p \<Rightarrow> 'p RuleEngine \<Rightarrow> 'p RuleEngine" where
  "AddRuleProcessor processor r = r\<lparr>processors := processors r @ [processor]\<rparr>"

section \<open>Auxiliary notions for the proofs\<close>

text \<open>One user's transactions, in input order: what partitioning stores under a key.\<close>

definition userTxs :: "UUID \<Rightarrow> Transaction list \<Rightarrow> Transaction list" where
  "userTxs u transactions = filter (\<lambda>tx. UserID tx = u) transactions"

text \<open>
  The transaction at index \<open>i\<close> lies in the window that ends at index \<open>r\<close>: the loop
  condition of \<^verbatim>\<open>hasViolatedVelocity\<close>, negated.
\<close>

definition inWindow :: "Transaction list \<Rightarrow> VelocityPeriod \<Rightarrow> nat \<Rightarrow> nat \<Rightarrow> bool" where
  "inWindow txs period r i \<longleftrightarrow>
     Sub (CreatedAt (txs ! r)) (CreatedAt (txs ! i)) \<le> Duration period"

text \<open>
  A multiset of timestamps is dense for duration \<open>d\<close> and threshold \<open>k\<close> when some
  timestamp \<open>x\<close> has more than \<open>k\<close> timestamps at or before it whose distance to \<open>x\<close>,
  as \<^verbatim>\<open>Sub\<close> measures it, is at most \<open>d\<close>.
\<close>

definition dense :: "Duration \<Rightarrow> int \<Rightarrow> Time multiset \<Rightarrow> bool" where
  "dense d k M \<longleftrightarrow> (\<exists>x\<in>#M. k < int (size {#y \<in># M. y \<le> x \<and> Sub x y \<le> d#}))"

text \<open>A transaction of a user at an instant, for concrete instances of the theorems.\<close>

definition txAt :: "UUID \<Rightarrow> Time \<Rightarrow> Transaction" where
  "txAt u t = \<lparr>UserID = u, Amount = 100, Country = ''FR'', CreatedAt = t\<rparr>"

text \<open>
  A group of transactions lies within a span of length at most \<open>d\<close>: the difference
  between any two of its timestamps is at most \<open>d\<close>.
\<close>

definition withinSpan :: "Duration \<Rightarrow> Transaction list \<Rightarrow> bool" where
  "withinSpan d w \<longleftrightarrow>
     list_all (\<lambda>a. list_all (\<lambda>b. CreatedAt a - CreatedAt b \<le> d) w) w"

text \<open>
  The same with the distance as the code computes it, by \<^verbatim>\<open>Sub\<close>, which saturates at
  the range of \<^verbatim>\<open>int64\<close>.
\<close>

definition spanBySub :: "Duration \<Rightarrow> Transaction list \<Rightarrow> bool" where
  "spanBySub d w \<longleftrightarrow>
     list_all (\<lambda>a. list_all (\<lambda>b. Sub (CreatedAt a) (CreatedAt b) \<le> d) w) w"

section \<open>The two concurrent evaluators\<close>

record UserJob =
  JobUserID :: UUID
  Transactions :: "Transaction list"

record UserResult =
  ResultUserID :: UUID
  HasViolation :: bool

record WorkerVelocityProcessor =
  PoolPeriods :: "VelocityPeriod list"
  PoolWorkerCount :: int

record ConcurrentVelocityProcessor =
  PipelinePeriods :: "VelocityPeriod list"
  PipelineWorkerCount :: int

definition NewWorkerVelocityProcessor :: "VelocityPeriod list \<Rightarrow> int \<Rightarrow> WorkerVelocityProcessor" where
  "NewWorkerVelocityProcessor periods workerCount =
     \<lparr>PoolPeriods = periods,
      PoolWorkerCount = (if workerCount \<le> 0 then 4 else workerCount)\<rparr>"

definition NewConcurrentVelocityProcessor :: "VelocityPeriod list \<Rightarrow> int \<Rightarrow> ConcurrentVelocityProcessor" where
  "NewConcurrentVelocityProcessor periods workerCount =
     \<lparr>PipelinePeriods = periods, PipelineWorkerCount = workerCount\<rparr>"

definition processUser :: "VelocityPeriod list \<Rightarrow> UUID \<Rightarrow> Transaction list \<Rightarrow> UserResult" where
  "processUser periods userID txs =
     \<lparr>ResultUserID = userID, HasViolation = sortAndCheck periods txs\<rparr>"

subsection \<open>Goroutines and channels as a scheduled state machine\<close>

text \<open>
  Both evaluators run the same goroutines over two buffered channels: a producer that
  ranges over the map of users and sends one job per user, \<^verbatim>\<open>WorkerCount\<close> workers, a
  goroutine that closes the result channel after \<^verbatim>\<open>wg.Wait()\<close>, and the caller, which
  folds the results until the result channel is closed and drained.  A worker is at one
  of four places of its loop.
\<close>

datatype worker =
    Waiting                 \<comment> \<open>at \<^verbatim>\<open>for job := range jobs\<close>\<close>
  | Holding UserJob         \<comment> \<open>job received, at \<^verbatim>\<open>select { case <-ctx.Done(): ...; default: ... }\<close>\<close>
  | Sending UserResult      \<comment> \<open>\<^verbatim>\<open>processUser\<close> done, at the send on \<^verbatim>\<open>results\<close>\<close>
  | Exited                  \<comment> \<open>returned; \<^verbatim>\<open>wg.Done()\<close> has run\<close>

record pool =
  pending :: "(UUID \<times> Transaction list) list"  \<comment> \<open>entries of the map not yet visited by \<^verbatim>\<open>range\<close>\<close>
  producerDone :: bool
  userJobs :: "UserJob list"
  userJobsClosed :: bool
  workers :: "worker list"
  results :: "UserResult list"
  resultsClosed :: bool
  flaggedUsers :: "UUID set"
  returned :: bool                               \<comment> \<open>the aggregation loop has ended\<close>
  cancelled :: bool                              \<comment> \<open>\<^verbatim>\<open>ctx.Done()\<close> is closed\<close>
  panicked :: bool                               \<comment> \<open>a send on a closed channel has happened\<close>
  started :: nat                                 \<comment> \<open>calls of \<^verbatim>\<open>processUser\<close> so far\<close>

text \<open>
  What differs between the two evaluators: the channel capacities, and whether the send
  of a result is a \<^verbatim>\<open>select\<close> with \<^verbatim>\<open>ctx.Done()\<close> (worker pool) or a plain send
  (pipeline).
\<close>

record config =
  velocityPeriods :: "VelocityPeriod list"
  jobsCap :: nat
  resultsCap :: nat
  sendSelectsDone :: bool

text \<open>
  One scheduling decision.  \<^verbatim>\<open>range\<close> over a map visits the keys in an unspecified
  order, so the producer may send any entry that is left.
\<close>

datatype event =
    ProducerSend nat
  | ProducerReturn
  | WorkerStep nat
  | WorkerAbort nat
  | CloseResults
  | Aggregate
  | Cancel

text \<open>
  \<^verbatim>\<open>case userJobs <- UserJob{UserID: userID, Transactions: txs}:\<close> proceeds when the
  buffer has room; a send on a closed channel panics.
\<close>

definition producerSend :: "config \<Rightarrow> nat \<Rightarrow> pool \<Rightarrow> pool option" where
  "producerSend c k s =
     (if producerDone s \<or> length (pending s) \<le> k then None
      else if userJobsClosed s then Some (s\<lparr>producerDone := True, panicked := True\<rparr>)
      else if length (userJobs s) < jobsCap c then
        Some (s\<lparr>userJobs := userJobs s
                   @ [\<lparr>JobUserID = fst (pending s ! k), Transactions = snd (pending s ! k)\<rparr>],
                pending := take k (pending s) @ drop (Suc k) (pending s)\<rparr>)
      else None)"

text \<open>
  The producer returns when the map is exhausted, or at \<^verbatim>\<open>case <-ctx.Done(): return\<close>;
  the deferred \<^verbatim>\<open>close(userJobs)\<close> runs either way.
\<close>

definition producerReturn :: "pool \<Rightarrow> pool option" where
  "producerReturn s =
     (if producerDone s then None
      else if pending s = [] \<or> cancelled s then
        Some (s\<lparr>producerDone := True, userJobsClosed := True\<rparr>)
      else None)"

text \<open>
  The next step of worker \<open>i\<close>: receive a job (or leave the loop when the channel is
  closed and drained); check \<^verbatim>\<open>ctx.Done()\<close> and, by default, run \<^verbatim>\<open>processUser\<close>;
  send the result.
\<close>

definition workerStep :: "config \<Rightarrow> nat \<Rightarrow> pool \<Rightarrow> pool option" where
  "workerStep c i s =
     (if length (workers s) \<le> i then None
      else case workers s ! i of
        Waiting \<Rightarrow>
          (case userJobs s of
             job # rest \<Rightarrow> Some (s\<lparr>userJobs := rest, workers := (workers s)[i := Holding job]\<rparr>)
           | [] \<Rightarrow> if userJobsClosed s then Some (s\<lparr>workers := (workers s)[i := Exited]\<rparr>)
                   else None)
      | Holding job \<Rightarrow>
          (if cancelled s then Some (s\<lparr>workers := (workers s)[i := Exited]\<rparr>)
           else Some (s\<lparr>workers := (workers s)
                          [i := Sending (processUser (velocityPeriods c) (JobUserID job) (Transactions job))],
                        started := started s + 1\<rparr>))
      | Sending result \<Rightarrow>
          (if resultsClosed s then
             Some (s\<lparr>workers := (workers s)[i := Exited], panicked := True\<rparr>)
           else if length (results s) < resultsCap c then
             Some (s\<lparr>results := results s @ [result], workers := (workers s)[i := Waiting]\<rparr>)
           else None)
      | Exited \<Rightarrow> None)"

text \<open>
  The second \<^verbatim>\<open>select\<close> of the pool's worker:
  \<^verbatim>\<open>select { case results <- result: case <-ctx.Done(): return }\<close>.
\<close>

definition workerAbort :: "config \<Rightarrow> nat \<Rightarrow> pool \<Rightarrow> pool option" where
  "workerAbort c i s =
     (if length (workers s) \<le> i \<or> \<not> sendSelectsDone c \<or> \<not> cancelled s then None
      else case workers s ! i of
        Sending result \<Rightarrow> Some (s\<lparr>workers := (workers s)[i := Exited]\<rparr>)
      | _ \<Rightarrow> None)"

text \<open>\<^verbatim>\<open>go func() { wg.Wait(); close(results) }()\<close>\<close>

definition closeResults :: "pool \<Rightarrow> pool option" where
  "closeResults s =
     (if resultsClosed s \<or> \<not> list_all (\<lambda>w. w = Exited) (workers s) then None
      else Some (s\<lparr>resultsClosed := True\<rparr>))"

text \<open>
  \<^verbatim>\<open>for result := range results { if result.HasViolation { flaggedUsers[result.UserID] = struct{}{} } }\<close>
\<close>

definition aggregate :: "pool \<Rightarrow> pool option" where
  "aggregate s =
     (if returned s then None
      else case results s of
        result # rest \<Rightarrow>
          Some (s\<lparr>results := rest,
                  flaggedUsers := (if HasViolation result
                                   then insert (ResultUserID result) (flaggedUsers s)
                                   else flaggedUsers s)\<rparr>)
      | [] \<Rightarrow> if resultsClosed s then Some (s\<lparr>returned := True\<rparr>) else None)"

definition cancel :: "pool \<Rightarrow> pool option" where
  "cancel s = (if cancelled s then None else Some (s\<lparr>cancelled := True\<rparr>))"

fun exec :: "config \<Rightarrow> event \<Rightarrow> pool \<Rightarrow> pool option" where
  "exec c (ProducerSend k) s = producerSend c k s"
| "exec c ProducerReturn s = producerReturn s"
| "exec c (WorkerStep i) s = workerStep c i s"
| "exec c (WorkerAbort i) s = workerAbort c i s"
| "exec c CloseResults s = closeResults s"
| "exec c Aggregate s = aggregate s"
| "exec c Cancel s = cancel s"

text \<open>A schedule is a list of events; it is refused when one of them cannot proceed.\<close>

fun run :: "config \<Rightarrow> event list \<Rightarrow> pool \<Rightarrow> pool option" where
  "run c [] s = Some s"
| "run c (e # es) s = (case exec c e s of None \<Rightarrow> None | Some s' \<Rightarrow> run c es s')"

text \<open>
  The state in which the goroutines start: \<^verbatim>\<open>for i := 0; i < v.WorkerCount; i++\<close>
  launches no worker when the count is zero or negative.
\<close>

definition start :: "(UUID \<times> Transaction list) list \<Rightarrow> int \<Rightarrow> pool" where
  "start userTransactions workerCount =
     \<lparr>pending = userTransactions, producerDone = False,
      userJobs = [], userJobsClosed = False,
      workers = replicate (nat workerCount) Waiting,
      results = [], resultsClosed = False,
      flaggedUsers = {}, returned = False, cancelled = False, panicked = False,
      started = 0\<rparr>"

text \<open>
  What \<open>Process\<close> returns under a schedule: the flagged users once the aggregation loop
  has ended, nothing when the schedule is refused or stops before that.
\<close>

definition outcome :: "pool option \<Rightarrow> UUID set option" where
  "outcome r = (case r of None \<Rightarrow> None
                | Some s \<Rightarrow> if returned s then Some (flaggedUsers s) else None)"

text \<open>
  \<^verbatim>\<open>WorkerVelocityProcessor.Process\<close>: both channels are made with capacity
  \<^verbatim>\<open>len(userTransactions)\<close>.
\<close>

definition poolConfig :: "WorkerVelocityProcessor \<Rightarrow> Transaction list \<Rightarrow> config" where
  "poolConfig v transactions =
     \<lparr>velocityPeriods = PoolPeriods v,
      jobsCap = length (groupByUser transactions),
      resultsCap = length (groupByUser transactions),
      sendSelectsDone = True\<rparr>"

definition poolStart :: "WorkerVelocityProcessor \<Rightarrow> Transaction list \<Rightarrow> pool" where
  "poolStart v transactions = start (groupByUser transactions) (PoolWorkerCount v)"

definition WorkerProcess :: "WorkerVelocityProcessor \<Rightarrow> event list \<Rightarrow> Transaction list \<Rightarrow> UUID set option" where
  "WorkerProcess v schedule transactions =
     outcome (run (poolConfig v transactions) schedule (poolStart v transactions))"

text \<open>
  \<^verbatim>\<open>ConcurrentVelocityProcessor.Process\<close>: \<^verbatim>\<open>fanOut\<close>, \<^verbatim>\<open>process\<close> and \<^verbatim>\<open>fanIn\<close>, over
  channels of capacity 1000.
\<close>

definition pipelineConfig :: "ConcurrentVelocityProcessor \<Rightarrow> config" where
  "pipelineConfig v =
     \<lparr>velocityPeriods = PipelinePeriods v, jobsCap = 1000, resultsCap = 1000, sendSelectsDone = False\<rparr>"

definition pipelineStart :: "ConcurrentVelocityProcessor \<Rightarrow> Transaction list \<Rightarrow> pool" where
  "pipelineStart v transactions = start (groupByUser transactions) (PipelineWorkerCount v)"

definition ConcurrentProcess :: "ConcurrentVelocityProcessor \<Rightarrow> event list \<Rightarrow> Transaction list \<Rightarrow> UUID set option" where
  "ConcurrentProcess v schedule transactions =
     outcome (run (pipelineConfig v) schedule (pipelineStart v transactions))"

text \<open>A state in which no goroutine can take a step, and one in which none is left.\<close>

definition quiescent :: "config \<Rightarrow> pool \<Rightarrow> bool" where
  "quiescent c s \<longleftrightarrow> (\<forall>e. e \<noteq> Cancel \<longrightarrow> exec c e s = None)"

definition allExited :: "pool \<Rightarrow> bool" where
  "allExited s \<longleftrightarrow>
     producerDone s \<and> list_all (\<lambda>w. w = Exited) (workers s) \<and> resultsClosed s \<and> returned s"

subsection \<open>Invariants and measures of the state machine\<close>

text \<open>
  The users a state can still flag: those already flagged, and those whose result or job
  is in a channel, in the hands of a worker, or still with the producer.
\<close>

definition jobFlag :: "VelocityPeriod list \<Rightarrow> UUID \<times> Transaction list \<Rightarrow> UUID set" where
  "jobFlag ps job = (if sortAndCheck ps (snd job) then {fst job} else {})"

definition resultFlag :: "UserResult \<Rightarrow> UUID set" where
  "resultFlag r = (if HasViolation r then {ResultUserID r} else {})"

fun workerFlag :: "VelocityPeriod list \<Rightarrow> worker \<Rightarrow> UUID set" where
  "workerFlag ps Waiting = {}"
| "workerFlag ps (Holding job) = jobFlag ps (JobUserID job, Transactions job)"
| "workerFlag ps (Sending r) = resultFlag r"
| "workerFlag ps Exited = {}"

definition cover :: "config \<Rightarrow> pool \<Rightarrow> UUID set" where
  "cover c s =
     flaggedUsers s
     \<union> (\<Union>r\<in>set (results s). resultFlag r)
     \<union> (\<Union>w\<in>set (workers s). workerFlag (velocityPeriods c) w)
     \<union> (\<Union>j\<in>set (userJobs s). jobFlag (velocityPeriods c) (JobUserID j, Transactions j))
     \<union> (\<Union>p\<in>set (pending s). jobFlag (velocityPeriods c) p)"

text \<open>The number of steps a state can still take is bounded by its weight.\<close>

fun weight :: "worker \<Rightarrow> nat" where
  "weight Waiting = 1"
| "weight (Holding job) = 4"
| "weight (Sending r) = 3"
| "weight Exited = 0"

definition stepsLeft :: "pool \<Rightarrow> nat" where
  "stepsLeft s =
     5 * length (pending s) + 4 * length (userJobs s) + sum_list (map weight (workers s))
     + length (results s)
     + (if producerDone s then 0 else 1) + (if resultsClosed s then 0 else 1)
     + (if returned s then 0 else 1) + (if cancelled s then 0 else 1)"

text \<open>The number of jobs and results that occupy, or will occupy, a channel slot.\<close>

fun busy :: "worker \<Rightarrow> nat" where
  "busy Waiting = 0"
| "busy (Holding job) = 1"
| "busy (Sending r) = 1"
| "busy Exited = 0"

definition load :: "pool \<Rightarrow> nat" where
  "load s = length (pending s) + length (userJobs s) + sum_list (map busy (workers s))
     + length (results s)"

definition sound :: "pool \<Rightarrow> bool" where
  "sound s \<longleftrightarrow>
     (userJobsClosed s \<longleftrightarrow> producerDone s)
     \<and> (resultsClosed s \<longrightarrow> list_all (\<lambda>w. w = Exited) (workers s))
     \<and> (returned s \<longrightarrow> resultsClosed s \<and> results s = [])
     \<and> (Exited \<in> set (workers s) \<longrightarrow> cancelled s \<or> (userJobsClosed s \<and> userJobs s = []))
     \<and> (producerDone s \<longrightarrow> cancelled s \<or> pending s = [])
     \<and> \<not> panicked s
     \<and> (workers s = [] \<longrightarrow> results s = [] \<and> flaggedUsers s = {})"

subsection \<open>Schedules for concrete instances\<close>

text \<open>One job, two workers, no cancellation: worker 0 takes the job, worker 1 finds the channel closed.\<close>

definition schedule1 :: "event list" where
  "schedule1 = [ProducerSend 0, ProducerReturn, WorkerStep 0, WorkerStep 0, WorkerStep 0,
     WorkerStep 0, WorkerStep 1, CloseResults, Aggregate, Aggregate]"

text \<open>One job, four workers, no cancellation.\<close>

definition schedule4 :: "event list" where
  "schedule4 = [ProducerSend 0, ProducerReturn, WorkerStep 3, WorkerStep 3, WorkerStep 3,
     WorkerStep 3, WorkerStep 0, WorkerStep 1, WorkerStep 2, CloseResults, Aggregate, Aggregate]"

text \<open>No job, two workers.\<close>

definition scheduleEmpty :: "event list" where
  "scheduleEmpty = [ProducerReturn, WorkerStep 0, WorkerStep 1, CloseResults, Aggregate]"

text \<open>
  One job, two workers; the context is cancelled after worker 0 has received the job and
  before it checks \<^verbatim>\<open>ctx.Done()\<close>.
\<close>

definition scheduleCancelled :: "event list" where
  "scheduleCancelled = [ProducerSend 0, WorkerStep 0, Cancel, WorkerStep 0, ProducerReturn,
     WorkerStep 1, CloseResults, Aggregate]"

section \<open>Slices and their backing arrays\<close>

text \<open>
  A Go slice is a window into a backing array; \<^verbatim>\<open>append\<close> writes into the array when
  the capacity allows and allocates a new array otherwise, and \<^verbatim>\<open>sort.Slice\<close> permutes
  the window in place.  The heap maps the address of each array to its contents; the
  addresses from \<open>nextAddr\<close> on are free.
\<close>

type_synonym addr = nat

record slice =
  sliceArray :: addr
  sliceOff :: nat
  sliceLen :: nat
  sliceCap :: nat

record heap =
  arrays :: "addr \<Rightarrow> Transaction list"
  nextAddr :: addr

definition nilSlice :: slice where
  "nilSlice = \<lparr>sliceArray = 0, sliceOff = 0, sliceLen = 0, sliceCap = 0\<rparr>"

definition zeroTransaction :: Transaction where
  "zeroTransaction = \<lparr>UserID = 0, Amount = 0, Country = [], CreatedAt = 0\<rparr>"

definition contents :: "heap \<Rightarrow> slice \<Rightarrow> Transaction list" where
  "contents h s = take (sliceLen s) (drop (sliceOff s) (arrays h (sliceArray s)))"

text \<open>
  \<^verbatim>\<open>append(s, x)\<close>.  How much capacity a new array gets beyond the element appended is
  left to the runtime: \<open>grow\<close> maps the old capacity to the one it proposes.
\<close>

definition appendTx :: "(nat \<Rightarrow> nat) \<Rightarrow> heap \<Rightarrow> slice \<Rightarrow> Transaction \<Rightarrow> heap \<times> slice" where
  "appendTx grow h s x =
     (if sliceLen s < sliceCap s then
        (h\<lparr>arrays := (arrays h)
              (sliceArray s := (arrays h (sliceArray s))[sliceOff s + sliceLen s := x])\<rparr>,
         s\<lparr>sliceLen := sliceLen s + 1\<rparr>)
      else
        (let newCap = max (sliceLen s + 1) (grow (sliceCap s))
         in (h\<lparr>arrays := (arrays h)
                  (nextAddr h := contents h s @ [x]
                     @ replicate (newCap - (sliceLen s + 1)) zeroTransaction),
                nextAddr := nextAddr h + 1\<rparr>,
             \<lparr>sliceArray = nextAddr h, sliceOff = 0, sliceLen = sliceLen s + 1,
              sliceCap = newCap\<rparr>)))"

definition lookupSlice :: "(UUID \<times> slice) list \<Rightarrow> UUID \<Rightarrow> slice" where
  "lookupSlice m k = (case map_of m k of None \<Rightarrow> nilSlice | Some s \<Rightarrow> s)"

text \<open>
  The partitioning loop \<^verbatim>\<open>for _, tx := range transactions\<close>: iteration \<open>i\<close> reads element
  \<open>i\<close> of the caller's slice from the heap as it is then.
\<close>

function partitionLoop :: "(nat \<Rightarrow> nat) \<Rightarrow> slice \<Rightarrow> nat \<Rightarrow> heap \<Rightarrow> (UUID \<times> slice) list
    \<Rightarrow> heap \<times> (UUID \<times> slice) list" where
  "partitionLoop grow transactions i h userTransactions =
     (if i < sliceLen transactions then
        (let tx = arrays h (sliceArray transactions) ! (sliceOff transactions + i);
             (h', s') = appendTx grow h (lookupSlice userTransactions (UserID tx)) tx
         in partitionLoop grow transactions (i + 1) h' (assign (UserID tx) s' userTransactions))
      else (h, userTransactions))"
  by pat_completeness auto
termination
  by (relation "measure (\<lambda>(grow, transactions, i, h, m). sliceLen transactions - i)") auto

declare partitionLoop.simps [simp del]

text \<open>\<^verbatim>\<open>sort.Slice\<close> on a slice: its window of the backing array is sorted in place.\<close>

definition sortSliceH :: "heap \<Rightarrow> slice \<Rightarrow> heap" where
  "sortSliceH h s =
     h\<lparr>arrays := (arrays h)
         (sliceArray s := take (sliceOff s) (arrays h (sliceArray s))
            @ sortSlice (contents h s)
            @ drop (sliceOff s + sliceLen s) (arrays h (sliceArray s)))\<rparr>"

text \<open>
  The body of the loop over users, and of \<^verbatim>\<open>processUser\<close>: sort the user's slice in
  place, then check the periods on it.
\<close>

definition processUserH :: "VelocityPeriod list \<Rightarrow> heap \<Rightarrow> slice \<Rightarrow> heap \<times> bool" where
  "processUserH periods h s =
     (let h' = sortSliceH h s in (h', hasViolatedVelocityPeriods periods (contents h' s)))"

definition flagUsersH :: "VelocityPeriod list \<Rightarrow> (UUID \<times> slice) list \<Rightarrow> heap \<times> UUID set
    \<Rightarrow> heap \<times> UUID set" where
  "flagUsersH periods jobs acc =
     fold (\<lambda>(userID, s) (h, flagged).
             (let (h', violation) = processUserH periods h s
              in (h', if violation then insert userID flagged else flagged)))
       jobs acc"

text \<open>\<^verbatim>\<open>VelocityProcessor.Process\<close> on the heap: the final heap and the flagged users.\<close>

definition ProcessH :: "(nat \<Rightarrow> nat) \<Rightarrow> VelocityPeriod list \<Rightarrow> heap \<Rightarrow> slice \<Rightarrow> heap \<times> UUID set" where
  "ProcessH grow periods h transactions =
     (let (h', userTransactions) = partitionLoop grow transactions 0 h []
      in flagUsersH periods userTransactions (h', {}))"

text \<open>A slice of the caller is well formed when its array is allocated and holds its window.\<close>

definition allocated :: "heap \<Rightarrow> slice \<Rightarrow> bool" where
  "allocated h s \<longleftrightarrow>
     sliceArray s < nextAddr h \<and> sliceOff s + sliceLen s \<le> length (arrays h (sliceArray s))"

text \<open>
  The state of the partitioning loop after the transactions \<open>pre\<close> have been read: every
  user's slice starts its own array, allocated at or after address \<open>n\<close>, and holds that
  user's transactions of \<open>pre\<close> in order.
\<close>

definition partitioned :: "addr \<Rightarrow> heap \<Rightarrow> (UUID \<times> slice) list \<Rightarrow> Transaction list \<Rightarrow> bool" where
  "partitioned n h m pre \<longleftrightarrow>
     distinct (map fst m)
     \<and> (\<forall>u s. map_of m u = Some s \<longrightarrow>
           n \<le> sliceArray s \<and> sliceArray s < nextAddr h \<and> sliceOff s = 0
           \<and> sliceLen s \<le> length (arrays h (sliceArray s))
           \<and> sliceCap s = length (arrays h (sliceArray s)))
     \<and> (\<forall>u1 u2 s1 s2. map_of m u1 = Some s1 \<longrightarrow> map_of m u2 = Some s2
           \<longrightarrow> sliceArray s1 = sliceArray s2 \<longrightarrow> u1 = u2)
     \<and> (\<forall>u. contents h (lookupSlice m u) = userTxs u pre)"

text \<open>
  A heap with one array, at address 0, holding three transactions of one user out of
  timestamp order; the caller's slice covers it.
\<close>

definition callerHeap :: heap where
  "callerHeap =
     \<lparr>arrays = (\<lambda>a. if a = 0 then [txAt 1 (2 * Hour), txAt 1 0, txAt 1 Hour] else []),
      nextAddr = 1\<rparr>"

definition callerSlice :: slice where
  "callerSlice = \<lparr>sliceArray = 0, sliceOff = 0, sliceLen = 3, sliceCap = 3\<rparr>"

section \<open>Correctness of the sliding window\<close>

lemma Sub_mono_left: "t \<le> t' \<Longrightarrow> Sub t u \<le> Sub t' u"
  by (simp add: Sub_def minDuration_def maxDuration_def)

lemma Sub_mono_right: "u \<le> u' \<Longrightarrow> Sub t u' \<le> Sub t u"
  by (simp add: Sub_def minDuration_def maxDuration_def)

lemma Sub_self: "Sub t t = 0"
  by (simp add: Sub_def minDuration_def maxDuration_def)

lemma advanceLeft_bounds:
  "left \<le> Suc right \<Longrightarrow>
     left \<le> advanceLeft txs period right left \<and> advanceLeft txs period right left \<le> Suc right"
proof (induction txs period right left rule: advanceLeft.induct)
  case (1 txs period right left)
  show ?case
  proof (cases "left \<le> right \<and> Sub (CreatedAt (txs ! right)) (CreatedAt (txs ! left)) > Duration period")
    case True
    with "1.IH" have "left + 1 \<le> advanceLeft txs period right (left + 1)
        \<and> advanceLeft txs period right (left + 1) \<le> Suc right"
      by simp
    with True show ?thesis
      by (subst (1 2) advanceLeft.simps) simp
  next
    case False
    with "1.prems" show ?thesis
      by (subst (1 2) advanceLeft.simps) auto
  qed
qed

lemma advanceLeft_skipped:
  "left \<le> i \<Longrightarrow> i < advanceLeft txs period right left \<Longrightarrow>
     Sub (CreatedAt (txs ! right)) (CreatedAt (txs ! i)) > Duration period"
proof (induction txs period right left rule: advanceLeft.induct)
  case (1 txs period right left)
  show ?case
  proof (cases "left \<le> right \<and> Sub (CreatedAt (txs ! right)) (CreatedAt (txs ! left)) > Duration period")
    case True
    then have eq: "advanceLeft txs period right left = advanceLeft txs period right (left + 1)"
      by (subst advanceLeft.simps) simp
    show ?thesis
    proof (cases "i = left")
      case True
      with \<open>left \<le> right \<and> _\<close> show ?thesis by simp
    next
      case False
      with "1.prems" eq have "left + 1 \<le> i" "i < advanceLeft txs period right (left + 1)"
        by simp_all
      with "1.IH" True show ?thesis by blast
    qed
  next
    case False
    then have "advanceLeft txs period right left = left"
      by (subst advanceLeft.simps) auto
    with "1.prems" show ?thesis by simp
  qed
qed

lemma advanceLeft_stops:
  "advanceLeft txs period right left \<le> right \<Longrightarrow>
     Sub (CreatedAt (txs ! right)) (CreatedAt (txs ! advanceLeft txs period right left))
       \<le> Duration period"
proof (induction txs period right left rule: advanceLeft.induct)
  case (1 txs period right left)
  show ?case
  proof (cases "left \<le> right \<and> Sub (CreatedAt (txs ! right)) (CreatedAt (txs ! left)) > Duration period")
    case True
    then have eq: "advanceLeft txs period right left = advanceLeft txs period right (left + 1)"
      by (subst advanceLeft.simps) simp
    with "1.IH" True "1.prems" show ?thesis by simp
  next
    case False
    then have eq: "advanceLeft txs period right left = left"
      by (subst advanceLeft.simps) auto
    with False "1.prems" show ?thesis by auto
  qed
qed

lemma sorted_CreatedAt_nth:
  "sorted (map CreatedAt txs) \<Longrightarrow> i \<le> j \<Longrightarrow> j < length txs \<Longrightarrow>
     CreatedAt (txs ! i) \<le> CreatedAt (txs ! j)"
  using sorted_nth_mono [of "map CreatedAt txs" i j] by simp

lemma window_after_advance:
  assumes srt: "sorted (map CreatedAt txs)"
    and r: "right < length txs"
    and l: "left \<le> right"
    and skipped: "\<forall>i<left. \<not> inWindow txs period right i"
  shows "{i. i \<le> right \<and> inWindow txs period right i}
           = {advanceLeft txs period right left .. right}"
proof -
  let ?l = "advanceLeft txs period right left"
  from l advanceLeft_bounds [of left right txs period]
  have b: "left \<le> ?l" "?l \<le> Suc right" by simp_all
  have out: "\<not> inWindow txs period right i" if "i < ?l" for i
  proof (cases "i < left")
    case True
    with skipped show ?thesis by simp
  next
    case False
    with that advanceLeft_skipped [of left i txs period right] show ?thesis
      by (simp add: inWindow_def)
  qed
  have inn: "inWindow txs period right i" if "?l \<le> i" "i \<le> right" for i
  proof -
    from that have "?l \<le> right" by simp
    then have "Sub (CreatedAt (txs ! right)) (CreatedAt (txs ! ?l)) \<le> Duration period"
      by (rule advanceLeft_stops)
    moreover from srt that r have "CreatedAt (txs ! ?l) \<le> CreatedAt (txs ! i)"
      by (intro sorted_CreatedAt_nth) simp_all
    then have "Sub (CreatedAt (txs ! right)) (CreatedAt (txs ! i))
                \<le> Sub (CreatedAt (txs ! right)) (CreatedAt (txs ! ?l))"
      by (rule Sub_mono_right)
    ultimately show ?thesis by (simp add: inWindow_def)
  qed
  show ?thesis
  proof (intro set_eqI iffI)
    fix i assume "i \<in> {i. i \<le> right \<and> inWindow txs period right i}"
    then have "i \<le> right" "inWindow txs period right i" by simp_all
    with out [of i] show "i \<in> {?l .. right}" by (cases "i < ?l") simp_all
  next
    fix i assume "i \<in> {?l .. right}"
    with inn [of i] show "i \<in> {i. i \<le> right \<and> inWindow txs period right i}" by simp
  qed
qed

lemma velocityLoop_windows:
  "sorted (map CreatedAt txs) \<Longrightarrow> left \<le> right \<Longrightarrow>
     (\<forall>i<left. \<forall>r. right \<le> r \<and> r < length txs \<longrightarrow> \<not> inWindow txs period r i) \<Longrightarrow>
     velocityLoop txs period left right \<longleftrightarrow>
       (\<exists>r. right \<le> r \<and> r < length txs
          \<and> Threshold period < int (card {i. i \<le> r \<and> inWindow txs period r i}))"
proof (induction txs period left right rule: velocityLoop.induct)
  case (1 txs period left right)
  note srt = "1.prems"(1) and lr = "1.prems"(2) and old = "1.prems"(3)
  show ?case
  proof (cases "right < length txs")
    case False
    then show ?thesis by (subst velocityLoop.simps) auto
  next
    case inr: True
    let ?l = "advanceLeft txs period right left"
    let ?W = "\<lambda>r. {i. i \<le> r \<and> inWindow txs period r i}"
    from old inr have skipped: "\<forall>i<left. \<not> inWindow txs period right i" by simp
    have W: "?W right = {?l .. right}"
      using window_after_advance [OF srt inr lr skipped] .
    from lr advanceLeft_bounds [of left right txs period]
    have b: "left \<le> ?l" "?l \<le> Suc right" by simp_all
    then have size: "int right - int ?l + 1 = int (card (?W right))"
      by (simp add: W)
    show ?thesis
    proof (cases "Threshold period < int right - int ?l + 1")
      case True
      then have "velocityLoop txs period left right"
        using inr by (subst velocityLoop.simps) (simp add: Let_def)
      moreover from True size inr have "\<exists>r. right \<le> r \<and> r < length txs
          \<and> Threshold period < int (card (?W r))"
        by (intro exI [of _ right]) simp
      ultimately show ?thesis by simp
    next
      case False
      then have step: "velocityLoop txs period left right = velocityLoop txs period ?l (right + 1)"
        using inr by (subst velocityLoop.simps) (simp add: Let_def)
      have inv: "\<forall>i<?l. \<forall>r. right + 1 \<le> r \<and> r < length txs \<longrightarrow> \<not> inWindow txs period r i"
      proof (intro allI impI)
        fix i r assume i: "i < ?l" and rr: "right + 1 \<le> r \<and> r < length txs"
        from i b have ir: "i \<le> right" by simp
        have "\<not> inWindow txs period right i"
        proof
          assume "inWindow txs period right i"
          with ir have "i \<in> {i. i \<le> right \<and> inWindow txs period right i}" by simp
          with W have "i \<in> {?l .. right}" by simp
          with i show False by simp
        qed
        moreover from srt rr have "CreatedAt (txs ! right) \<le> CreatedAt (txs ! r)"
          by (intro sorted_CreatedAt_nth) simp_all
        then have "Sub (CreatedAt (txs ! right)) (CreatedAt (txs ! i))
                    \<le> Sub (CreatedAt (txs ! r)) (CreatedAt (txs ! i))"
          by (rule Sub_mono_left)
        ultimately show "\<not> inWindow txs period r i"
          by (simp add: inWindow_def)
      qed
      from b have "?l \<le> right + 1" by simp
      with "1.IH" [OF inr refl refl False srt] inv
      have IH: "velocityLoop txs period ?l (right + 1) \<longleftrightarrow>
         (\<exists>r. right + 1 \<le> r \<and> r < length txs \<and> Threshold period < int (card (?W r)))"
        by simp
      have "(\<exists>r. right \<le> r \<and> r < length txs \<and> Threshold period < int (card (?W r)))
          \<longleftrightarrow> (\<exists>r. right + 1 \<le> r \<and> r < length txs \<and> Threshold period < int (card (?W r)))"
        (is "?A \<longleftrightarrow> ?B")
      proof
        assume ?A
        then obtain r where r: "right \<le> r" "r < length txs" "Threshold period < int (card (?W r))"
          by blast
        with False size have "r \<noteq> right" by auto
        with r show ?B by (intro exI [of _ r]) simp
      next
        assume ?B
        then show ?A by (auto intro: Suc_leD)
      qed
      with step IH show ?thesis by simp
    qed
  qed
qed

lemma hasViolatedVelocity_windows:
  assumes "sorted (map CreatedAt txs)"
  shows "hasViolatedVelocity txs period \<longleftrightarrow>
       (\<exists>r<length txs. Threshold period < int (card {i. i \<le> r \<and> inWindow txs period r i}))"
  unfolding hasViolatedVelocity_def
  using velocityLoop_windows [OF assms, of 0 0 period] by auto

lemma size_filter_mset_card:
  "size {#y \<in># mset ts. Q y#} = card {i. i < length ts \<and> Q (ts ! i)}"
proof -
  have "size {#y \<in># mset ts. Q y#} = length (filter Q ts)"
    by (metis mset_filter size_mset)
  then show ?thesis by (simp add: length_filter_conv_card)
qed

lemma windows_dense:
  assumes srt: "sorted (map CreatedAt txs)"
  shows "(\<exists>r<length txs. Threshold period < int (card {i. i \<le> r \<and> inWindow txs period r i}))
     \<longleftrightarrow> dense (Duration period) (Threshold period) (mset (map CreatedAt txs))"
    (is "?A \<longleftrightarrow> ?B")
proof -
  let ?ts = "map CreatedAt txs"
  let ?d = "Duration period"
  let ?S = "\<lambda>x. {i. i < length ?ts \<and> ?ts ! i \<le> x \<and> Sub x (?ts ! i) \<le> ?d}"
  let ?W = "\<lambda>r. {i. i \<le> r \<and> inWindow txs period r i}"
  have fin: "finite (?S x)" for x by simp
  have finW: "finite (?W r)" for r by simp
  have B: "?B \<longleftrightarrow> (\<exists>x\<in>set ?ts. Threshold period < int (card (?S x)))"
    unfolding dense_def size_filter_mset_card by simp
  show ?thesis
  proof
    assume ?A
    then obtain r where r: "r < length txs" "Threshold period < int (card (?W r))" by blast
    have "?W r \<subseteq> ?S (?ts ! r)"
    proof
      fix i assume "i \<in> ?W r"
      then have i: "i \<le> r" "inWindow txs period r i" by simp_all
      with srt r have "CreatedAt (txs ! i) \<le> CreatedAt (txs ! r)"
        by (intro sorted_CreatedAt_nth) simp_all
      with i r show "i \<in> ?S (?ts ! r)" by (simp add: inWindow_def)
    qed
    then have "card (?W r) \<le> card (?S (?ts ! r))"
      by (rule card_mono [OF fin])
    with r have "Threshold period < int (card (?S (?ts ! r)))" by simp
    moreover from r have "?ts ! r \<in> set ?ts" by (intro nth_mem) simp
    ultimately show ?B unfolding B by blast
  next
    assume ?B
    then obtain x where x: "x \<in> set ?ts" "Threshold period < int (card (?S x))"
      unfolding B by blast
    let ?E = "{i. i < length ?ts \<and> ?ts ! i = x}"
    from x have ne: "?E \<noteq> {}" by (auto simp: in_set_conv_nth)
    have finE: "finite ?E" by simp
    define r where "r = Max ?E"
    from Max_in [OF finE ne] have rE: "r < length txs" "?ts ! r = x" by (simp_all add: r_def)
    have "?S x \<subseteq> ?W r"
    proof
      fix i assume "i \<in> ?S x"
      then have i: "i < length txs" "CreatedAt (txs ! i) \<le> x" "Sub x (CreatedAt (txs ! i)) \<le> ?d"
        by auto
      have "i \<le> r"
      proof (rule ccontr)
        assume "\<not> i \<le> r"
        then have "r \<le> i" by simp
        with srt i have "CreatedAt (txs ! r) \<le> CreatedAt (txs ! i)"
          by (intro sorted_CreatedAt_nth) simp_all
        with rE i have "CreatedAt (txs ! i) = x" by simp
        with i have "i \<in> ?E" by simp
        then have "i \<le> r" unfolding r_def by (intro Max_ge finE)
        with \<open>\<not> i \<le> r\<close> show False by simp
      qed
      with i rE show "i \<in> ?W r" by (simp add: inWindow_def)
    qed
    then have "card (?S x) \<le> card (?W r)"
      by (rule card_mono [OF finW])
    with x rE show ?A by (intro exI [of _ r]) simp
  qed
qed

lemma hasViolatedVelocity_dense:
  assumes "sorted (map CreatedAt txs)"
  shows "hasViolatedVelocity txs period
     \<longleftrightarrow> dense (Duration period) (Threshold period) (mset (map CreatedAt txs))"
  using hasViolatedVelocity_windows [OF assms] windows_dense [OF assms] by simp

lemma hasViolatedVelocityPeriods_dense:
  assumes "sorted (map CreatedAt txs)"
  shows "hasViolatedVelocityPeriods periods txs
     \<longleftrightarrow> (\<exists>p\<in>set periods. dense (Duration p) (Threshold p) (mset (map CreatedAt txs)))"
  using assms by (induction periods) (simp_all add: hasViolatedVelocity_dense)

lemma sortAndCheck_dense:
  "sortAndCheck periods txs
     \<longleftrightarrow> (\<exists>p\<in>set periods. dense (Duration p) (Threshold p) (mset (map CreatedAt txs)))"
proof -
  have "sorted (map CreatedAt (sortSlice txs))" by (simp add: sortSlice_def)
  moreover have "mset (map CreatedAt (sortSlice txs)) = mset (map CreatedAt txs)"
    by (simp add: sortSlice_def)
  ultimately show ?thesis
    unfolding sortAndCheck_def using hasViolatedVelocityPeriods_dense by metis
qed

lemma map_of_assign: "map_of (assign k v m) = (map_of m)(k \<mapsto> v)"
  by (induction m) auto

lemma keys_assign: "fst ` set (assign k v m) = insert k (fst ` set m)"
proof (induction m)
  case Nil
  then show ?case by simp
next
  case (Cons e m)
  obtain k' v' where e: "e = (k', v')" by (cases e)
  show ?case
  proof (cases "k = k'")
    case True
    then show ?thesis by (simp add: e)
  next
    case False
    with Cons show ?thesis by (simp add: e insert_commute)
  qed
qed

lemma distinct_assign: "distinct (map fst m) \<Longrightarrow> distinct (map fst (assign k v m))"
proof (induction m)
  case Nil
  then show ?case by simp
next
  case (Cons e m)
  obtain k' v' where e: "e = (k', v')" by (cases e)
  show ?case
  proof (cases "k = k'")
    case True
    with Cons.prems show ?thesis by (simp add: e)
  next
    case False
    from Cons.prems have "k' \<notin> fst ` set m" "distinct (map fst m)" by (simp_all add: e)
    with False Cons.IH have "k' \<notin> fst ` set (assign k v m)" "distinct (map fst (assign k v m))"
      by (simp_all add: keys_assign)
    with False show ?thesis by (simp add: e)
  qed
qed

lemma groupByUser_snoc:
  "groupByUser (transactions @ [tx])
     = assign (UserID tx) (lookupTxs (groupByUser transactions) (UserID tx) @ [tx])
         (groupByUser transactions)"
  by (simp add: groupByUser_def)

lemma groupByUser_Nil: "groupByUser [] = []"
  by (simp add: groupByUser_def)

lemma distinct_groupByUser: "distinct (map fst (groupByUser transactions))"
  by (induction transactions rule: rev_induct)
     (simp_all add: groupByUser_Nil groupByUser_snoc distinct_assign)

lemma map_of_groupByUser:
  "map_of (groupByUser transactions) u
     = (if userTxs u transactions = [] then None else Some (userTxs u transactions))"
proof (induction transactions rule: rev_induct)
  case Nil
  then show ?case by (simp add: groupByUser_Nil userTxs_def)
next
  case (snoc tx transactions)
  show ?case
  proof (cases "UserID tx = u")
    case True
    with snoc show ?thesis
      by (simp add: groupByUser_snoc map_of_assign lookupTxs_def userTxs_def)
  next
    case False
    with snoc show ?thesis
      by (simp add: groupByUser_snoc map_of_assign userTxs_def)
  qed
qed

lemma groupByUser_entries:
  "(u, txs) \<in> set (groupByUser transactions)
     \<longleftrightarrow> txs = userTxs u transactions \<and> txs \<noteq> []"
proof -
  have "(u, txs) \<in> set (groupByUser transactions)
      \<longleftrightarrow> map_of (groupByUser transactions) u = Some txs"
    by (simp add: map_of_eq_Some_iff [OF distinct_groupByUser])
  also have "\<dots> \<longleftrightarrow> txs = userTxs u transactions \<and> txs \<noteq> []"
    unfolding map_of_groupByUser by (cases "userTxs u transactions = []") auto
  finally show ?thesis .
qed

lemma flagUsers_set:
  "flagUsers periods jobs flagged
     = flagged \<union> {u. \<exists>txs. (u, txs) \<in> set jobs \<and> sortAndCheck periods txs}"
  unfolding flagUsers_def
proof (induction jobs arbitrary: flagged)
  case Nil
  then show ?case by simp
next
  case (Cons job jobs)
  obtain u txs where job: "job = (u, txs)" by (cases job)
  show ?case
  proof (cases "sortAndCheck periods txs")
    case True
    with Cons [of "insert u flagged"] show ?thesis by (auto simp: job)
  next
    case False
    with Cons [of flagged] show ?thesis by (auto simp: job)
  qed
qed

lemma dense_empty: "\<not> dense d k {#}"
  by (simp add: dense_def)

lemma sortAndCheck_Nil: "\<not> sortAndCheck periods []"
  by (simp add: sortAndCheck_dense dense_empty)

lemma Process_sortAndCheck:
  "Process periods transactions = {u. sortAndCheck periods (userTxs u transactions)}"
proof (intro set_eqI iffI)
  fix u assume "u \<in> Process periods transactions"
  then obtain txs where "(u, txs) \<in> set (groupByUser transactions)" "sortAndCheck periods txs"
    unfolding Process_def flagUsers_set by blast
  then show "u \<in> {u. sortAndCheck periods (userTxs u transactions)}"
    by (simp add: groupByUser_entries)
next
  fix u assume "u \<in> {u. sortAndCheck periods (userTxs u transactions)}"
  then have p: "sortAndCheck periods (userTxs u transactions)" by simp
  with sortAndCheck_Nil [of periods] have "userTxs u transactions \<noteq> []" by auto
  then have "(u, userTxs u transactions) \<in> set (groupByUser transactions)"
    by (simp add: groupByUser_entries)
  with p show "u \<in> Process periods transactions"
    unfolding Process_def flagUsers_set by blast
qed

lemma Process_dense:
  "Process periods transactions
     = {u. \<exists>p\<in>set periods. dense (Duration p) (Threshold p)
             (mset (map CreatedAt (userTxs u transactions)))}"
  by (simp add: Process_sortAndCheck sortAndCheck_dense)

lemma dense_mono:
  assumes "M \<subseteq># N" "dense d k M"
  shows "dense d k N"
proof -
  from assms obtain x where x: "x \<in># M" "k < int (size {#y \<in># M. y \<le> x \<and> Sub x y \<le> d#})"
    by (auto simp: dense_def)
  from assms(1) have "{#y \<in># M. y \<le> x \<and> Sub x y \<le> d#} \<subseteq># {#y \<in># N. y \<le> x \<and> Sub x y \<le> d#}"
    by (rule multiset_filter_mono)
  then have "size {#y \<in># M. y \<le> x \<and> Sub x y \<le> d#} \<le> size {#y \<in># N. y \<le> x \<and> Sub x y \<le> d#}"
    by (rule size_mset_mono)
  moreover from assms(1) x have "x \<in># N" by (meson mset_subset_eqD)
  ultimately have "x \<in># N \<and> k < int (size {#y \<in># N. y \<le> x \<and> Sub x y \<le> d#})"
    using x by simp
  then show ?thesis unfolding dense_def by blast
qed

lemma mset_userTxs_mono:
  "mset xs \<subseteq># mset ys \<Longrightarrow>
     mset (map CreatedAt (userTxs u xs)) \<subseteq># mset (map CreatedAt (userTxs u ys))"
proof -
  assume "mset xs \<subseteq># mset ys"
  then have "filter_mset (\<lambda>tx. UserID tx = u) (mset xs) \<subseteq># filter_mset (\<lambda>tx. UserID tx = u) (mset ys)"
    by (rule multiset_filter_mono)
  then have "image_mset CreatedAt (filter_mset (\<lambda>tx. UserID tx = u) (mset xs))
       \<subseteq># image_mset CreatedAt (filter_mset (\<lambda>tx. UserID tx = u) (mset ys))"
    by (rule image_mset_subseteq_mono)
  then show ?thesis by (simp add: userTxs_def)
qed

lemma Process_monotone:
  "mset transactions \<subseteq># mset transactions' \<Longrightarrow> u \<in> Process periods transactions \<Longrightarrow> 
     u \<in> Process periods transactions'"
proof -
  assume sub: "mset transactions \<subseteq># mset transactions'" and u: "u \<in> Process periods transactions"
  from u obtain p where p: "p \<in> set periods"
      "dense (Duration p) (Threshold p) (mset (map CreatedAt (userTxs u transactions)))"
    unfolding Process_dense by blast
  from dense_mono [OF mset_userTxs_mono [OF sub] p(2)] p(1)
  show ?thesis unfolding Process_dense by blast
qed

lemma mset_userTxs_perm:
  "mset xs = mset ys \<Longrightarrow>
     mset (map CreatedAt (userTxs u xs)) = mset (map CreatedAt (userTxs u ys))"
proof -
  assume "mset xs = mset ys"
  then have "image_mset CreatedAt (filter_mset (\<lambda>tx. UserID tx = u) (mset xs))
       = image_mset CreatedAt (filter_mset (\<lambda>tx. UserID tx = u) (mset ys))"
    by simp
  then show ?thesis by (simp add: userTxs_def)
qed

lemma Process_permutation:
  "mset transactions = mset transactions' \<Longrightarrow>
     Process periods transactions = Process periods transactions'"
proof -
  assume "mset transactions = mset transactions'"
  then have "mset (map CreatedAt (userTxs u transactions)) = mset (map CreatedAt (userTxs u transactions'))" for u
    by (rule mset_userTxs_perm)
  then show ?thesis unfolding Process_dense by simp
qed

subsection \<open>Flagged users and dense windows\<close>

lemma spanBySub_iff:
  "spanBySub d w \<longleftrightarrow> (\<forall>a\<in>set w. \<forall>b\<in>set w. Sub (CreatedAt a) (CreatedAt b) \<le> d)"
  by (simp add: spanBySub_def list_all_iff)

lemma Sub_exact:
  "minDuration \<le> t - u \<Longrightarrow> t - u \<le> maxDuration \<Longrightarrow> Sub t u = t - u"
  by (simp add: Sub_def)

lemma Sub_le_iff:
  "d < maxDuration \<Longrightarrow> u \<le> t \<Longrightarrow> Sub t u \<le> d \<longleftrightarrow> t - u \<le> d"
  by (auto simp: Sub_def minDuration_def maxDuration_def)

lemma flagged_window:
  assumes "dense d k (mset (map CreatedAt txs))"
  shows "\<exists>w. mset w \<subseteq># mset txs \<and> spanBySub d w \<and> k < int (length w)"
proof -
  from assms obtain x where x: "x \<in> set (map CreatedAt txs)"
      "k < int (size {#y \<in># mset (map CreatedAt txs). y \<le> x \<and> Sub x y \<le> d#})"
    unfolding dense_def by auto
  let ?w = "filter (\<lambda>a. CreatedAt a \<le> x \<and> Sub x (CreatedAt a) \<le> d) txs"
  have sub: "mset ?w \<subseteq># mset txs" by simp
  have span: "spanBySub d ?w"
    unfolding spanBySub_iff
  proof (intro ballI)
    fix a b assume "a \<in> set ?w" "b \<in> set ?w"
    then have "CreatedAt a \<le> x" "Sub x (CreatedAt b) \<le> d" by simp_all
    with Sub_mono_left [of "CreatedAt a" x "CreatedAt b"]
    show "Sub (CreatedAt a) (CreatedAt b) \<le> d" by simp
  qed
  have "size {#y \<in># mset (map CreatedAt txs). y \<le> x \<and> Sub x y \<le> d#} = length ?w"
  proof -
    have "size {#y \<in># mset (map CreatedAt txs). y \<le> x \<and> Sub x y \<le> d#}
        = length (filter (\<lambda>y. y \<le> x \<and> Sub x y \<le> d) (map CreatedAt txs))"
      by (metis mset_filter size_mset)
    also have "\<dots> = length ?w"
      by (simp add: filter_map comp_def)
    finally show ?thesis .
  qed
  with x(2) have "k < int (length ?w)" by simp
  with sub span show ?thesis by (intro exI [of _ ?w]) (intro conjI)
qed

lemma window_flagged:
  assumes sub: "mset w \<subseteq># mset txs" and span: "spanBySub d w"
    and len: "k < int (length w)" and ne: "txs \<noteq> []"
  shows "dense d k (mset (map CreatedAt txs))"
proof (cases "w = []")
  case True
  from ne obtain a where a: "a \<in> set txs" by (cases txs) auto
  then have "CreatedAt a \<in># mset (map CreatedAt txs)" by simp
  moreover from True len have "k < 0" by simp
  then have "k < int (size {#y \<in># mset (map CreatedAt txs).
      y \<le> CreatedAt a \<and> Sub (CreatedAt a) y \<le> d#})"
    by simp
  ultimately show ?thesis unfolding dense_def by blast
next
  case False
  let ?ts = "map CreatedAt w"
  define x where "x = Max (set ?ts)"
  from False have xin: "x \<in> set ?ts" unfolding x_def by (intro Max_in) simp_all
  then obtain a where a: "a \<in> set w" "x = CreatedAt a" by auto
  have le: "y \<le> x" if "y \<in> set ?ts" for y
    unfolding x_def using that by (intro Max_ge) simp_all
  have msub: "mset ?ts \<subseteq># mset (map CreatedAt txs)"
    using sub by (simp add: image_mset_subseteq_mono)
  have "mset ?ts = {#y \<in># mset ?ts. y \<le> x \<and> Sub x y \<le> d#}"
  proof -
    have "\<forall>y\<in>#mset ?ts. y \<le> x \<and> Sub x y \<le> d"
    proof
      fix y assume "y \<in># mset ?ts"
      then have y: "y \<in> set ?ts" by simp
      then obtain b where b: "b \<in> set w" "y = CreatedAt b" by auto
      with a span have "Sub x y \<le> d" by (simp add: spanBySub_iff)
      with le [OF y] show "y \<le> x \<and> Sub x y \<le> d" by simp
    qed
    then have "filter (\<lambda>y. y \<le> x \<and> Sub x y \<le> d) ?ts = ?ts"
      by (intro filter_True) simp
    then have "mset (filter (\<lambda>y. y \<le> x \<and> Sub x y \<le> d) ?ts) = mset ?ts"
      by simp
    then show ?thesis unfolding mset_filter by simp
  qed
  also have "\<dots> \<subseteq># {#y \<in># mset (map CreatedAt txs). y \<le> x \<and> Sub x y \<le> d#}"
    using msub by (rule multiset_filter_mono)
  finally have "size (mset ?ts)
      \<le> size {#y \<in># mset (map CreatedAt txs). y \<le> x \<and> Sub x y \<le> d#}"
    by (rule size_mset_mono)
  with len have "k < int (size {#y \<in># mset (map CreatedAt txs). y \<le> x \<and> Sub x y \<le> d#})"
    by simp
  moreover from xin msub have "x \<in># mset (map CreatedAt txs)"
    by (metis mset_subset_eqD set_mset_mset)
  ultimately show ?thesis unfolding dense_def by blast
qed

lemma Process_windows:
  "u \<in> Process periods transactions \<longleftrightarrow>
     (\<exists>p\<in>set periods. \<exists>w. mset w \<subseteq># mset (userTxs u transactions)
        \<and> spanBySub (Duration p) w \<and> Threshold p < int (length w))
     \<and> userTxs u transactions \<noteq> []"
proof
  assume "u \<in> Process periods transactions"
  then obtain p where p: "p \<in> set periods"
      "dense (Duration p) (Threshold p) (mset (map CreatedAt (userTxs u transactions)))"
    unfolding Process_dense by blast
  from p(2) dense_empty [of "Duration p" "Threshold p"] have "userTxs u transactions \<noteq> []"
    by auto
  with p(1) flagged_window [OF p(2)] show "(\<exists>p\<in>set periods. \<exists>w. mset w \<subseteq># mset (userTxs u transactions)
        \<and> spanBySub (Duration p) w \<and> Threshold p < int (length w))
     \<and> userTxs u transactions \<noteq> []" by blast
next
  assume "(\<exists>p\<in>set periods. \<exists>w. mset w \<subseteq># mset (userTxs u transactions)
        \<and> spanBySub (Duration p) w \<and> Threshold p < int (length w))
     \<and> userTxs u transactions \<noteq> []"
  then obtain p w where "p \<in> set periods" "mset w \<subseteq># mset (userTxs u transactions)"
     "spanBySub (Duration p) w" "Threshold p < int (length w)" "userTxs u transactions \<noteq> []"
    by blast
  with window_flagged [of w "userTxs u transactions" "Duration p" "Threshold p"]
  show "u \<in> Process periods transactions"
    unfolding Process_dense by blast
qed

lemma scenario3_dense:
  "\<not> dense week 2 {#t, t + Hour, t + 8 * 24 * Hour#}"
  by (simp add: dense_def Sub_def week_def Hour_def minDuration_def maxDuration_def)

lemma scenario3_Process:
  assumes "mset (map CreatedAt (userTxs u transactions)) = {#t, t + Hour, t + 8 * 24 * Hour#}"
  shows "u \<notin> Process [NewVelocityPeriod week 2] transactions"
  using assms scenario3_dense [of t] by (simp add: Process_dense NewVelocityPeriod_def)

subsection \<open>What the model fixes and the code leaves open\<close>

text \<open>
  The verdict on a user does not depend on how \<^verbatim>\<open>sort.Slice\<close> orders transactions with
  equal timestamps, nor on the order in which \<^verbatim>\<open>range\<close> visits the users; and for a
  duration below the largest \<^verbatim>\<open>int64\<close> the span that \<^verbatim>\<open>Sub\<close> measures is the exact one,
  while from the largest \<^verbatim>\<open>int64\<close> on every group passes the code's test.
\<close>

lemma sortAndCheck_any_sort:
  assumes "mset ys = mset txs" and "sorted (map CreatedAt ys)"
  shows "hasViolatedVelocityPeriods periods ys = sortAndCheck periods txs"
proof -
  from assms(1) have "mset (map CreatedAt ys) = mset (map CreatedAt txs)"
    by (metis mset_map)
  with hasViolatedVelocityPeriods_dense [OF assms(2), of periods] show ?thesis
    by (simp add: sortAndCheck_dense)
qed

lemma flagUsers_any_order:
  "set jobs = set jobs' \<Longrightarrow> flagUsers periods jobs flagged = flagUsers periods jobs' flagged"
  by (simp add: flagUsers_set)

lemma withinSpan_iff:
  "withinSpan d w \<longleftrightarrow> (\<forall>a\<in>set w. \<forall>b\<in>set w. CreatedAt a - CreatedAt b \<le> d)"
  by (simp add: withinSpan_def list_all_iff)

lemma withinSpan_spanBySub:
  assumes "withinSpan d w"
  shows "spanBySub d w"
proof (cases "w = []")
  case True
  then show ?thesis by (simp add: spanBySub_iff)
next
  case False
  then obtain c where c: "c \<in> set w" by (cases w) auto
  from assms have "\<forall>a\<in>set w. \<forall>b\<in>set w. CreatedAt a - CreatedAt b \<le> d"
    by (simp add: withinSpan_iff)
  with c have "CreatedAt c - CreatedAt c \<le> d" by blast
  then have d: "0 \<le> d" by simp
  have "Sub x y \<le> d" if "x - y \<le> d" for x y
    using that d by (auto simp: Sub_def minDuration_def maxDuration_def)
  with assms show ?thesis by (simp add: withinSpan_iff spanBySub_iff)
qed

lemma spanBySub_withinSpan:
  assumes "d < maxDuration" and "spanBySub d w"
  shows "withinSpan d w"
proof (cases "w = []")
  case True
  then show ?thesis by (simp add: withinSpan_iff)
next
  case False
  then obtain c where c: "c \<in> set w" by (cases w) auto
  with assms(2) have "Sub (CreatedAt c) (CreatedAt c) \<le> d" by (simp add: spanBySub_iff)
  then have d: "0 \<le> d" by (simp add: Sub_self)
  have "x - y \<le> d" if "Sub x y \<le> d" for x y
    using that d assms(1) by (auto simp: Sub_def minDuration_def maxDuration_def split: if_splits)
  with assms(2) show ?thesis by (simp add: withinSpan_iff spanBySub_iff)
qed

lemma withinSpan_exact:
  "d < maxDuration \<Longrightarrow> spanBySub d w \<longleftrightarrow> withinSpan d w"
  using withinSpan_spanBySub spanBySub_withinSpan by blast

lemma spanBySub_saturated: "maxDuration \<le> d \<Longrightarrow> spanBySub d w"
  by (auto simp: spanBySub_iff Sub_def minDuration_def maxDuration_def)

lemma sortSlice_Before:
  "mset (sortSlice txs) = mset txs
   \<and> sorted_wrt (\<lambda>a b. \<not> Before (CreatedAt b) (CreatedAt a)) (sortSlice txs)"
proof -
  have "sorted (map CreatedAt (sortSlice txs))" by (simp add: sortSlice_def)
  then have "sorted_wrt (\<lambda>a b. CreatedAt a \<le> CreatedAt b) (sortSlice txs)"
    by (simp add: sorted_map)
  then show ?thesis by (simp add: Before_def not_less sortSlice_def)
qed

lemma scenario3_left:
  "advanceLeft [txAt u t, txAt u (t + Hour), txAt u (t + 8 * 24 * Hour)]
     (NewVelocityPeriod week 2) 2 0 = 2"
  by (simp add: advanceLeft.simps txAt_def NewVelocityPeriod_def Sub_def week_def Hour_def
      minDuration_def maxDuration_def)

lemma scenario3_sorted:
  "hasViolatedVelocity [txAt u t, txAt u (t + Hour), txAt u (t + 8 * 24 * Hour)]
     (NewVelocityPeriod week 2) = False"
  by (simp add: hasViolatedVelocity_def velocityLoop.simps advanceLeft.simps Let_def txAt_def
      NewVelocityPeriod_def Sub_def week_def Hour_def minDuration_def maxDuration_def)

section \<open>Properties of the scheduled state machine\<close>

lemma exec_cases [consumes 1, case_names send sendPanic prodReturn receive drained observe
    process resultPanic resultSend abort close collect finish cancel]:
  assumes "exec c e s = Some s'"
  obtains
    k where "e = ProducerSend k" "\<not> producerDone s" "k < length (pending s)"
      "\<not> userJobsClosed s" "length (userJobs s) < jobsCap c"
      "s' = s\<lparr>userJobs := userJobs s
                   @ [\<lparr>JobUserID = fst (pending s ! k), Transactions = snd (pending s ! k)\<rparr>],
                pending := take k (pending s) @ drop (Suc k) (pending s)\<rparr>"
  | k where "e = ProducerSend k" "\<not> producerDone s" "k < length (pending s)"
      "userJobsClosed s" "s' = s\<lparr>producerDone := True, panicked := True\<rparr>"
  | "e = ProducerReturn" "\<not> producerDone s" "pending s = [] \<or> cancelled s"
      "s' = s\<lparr>producerDone := True, userJobsClosed := True\<rparr>"
  | i job rest where "e = WorkerStep i" "i < length (workers s)" "workers s ! i = Waiting"
      "userJobs s = job # rest"
      "s' = s\<lparr>userJobs := rest, workers := (workers s)[i := Holding job]\<rparr>"
  | i where "e = WorkerStep i" "i < length (workers s)" "workers s ! i = Waiting"
      "userJobs s = []" "userJobsClosed s" "s' = s\<lparr>workers := (workers s)[i := Exited]\<rparr>"
  | i job where "e = WorkerStep i" "i < length (workers s)" "workers s ! i = Holding job"
      "cancelled s" "s' = s\<lparr>workers := (workers s)[i := Exited]\<rparr>"
  | i job where "e = WorkerStep i" "i < length (workers s)" "workers s ! i = Holding job"
      "\<not> cancelled s"
      "s' = s\<lparr>workers := (workers s)
                 [i := Sending (processUser (velocityPeriods c) (JobUserID job) (Transactions job))],
               started := started s + 1\<rparr>"
  | i r where "e = WorkerStep i" "i < length (workers s)" "workers s ! i = Sending r"
      "resultsClosed s" "s' = s\<lparr>workers := (workers s)[i := Exited], panicked := True\<rparr>"
  | i r where "e = WorkerStep i" "i < length (workers s)" "workers s ! i = Sending r"
      "\<not> resultsClosed s" "length (results s) < resultsCap c"
      "s' = s\<lparr>results := results s @ [r], workers := (workers s)[i := Waiting]\<rparr>"
  | i r where "e = WorkerAbort i" "i < length (workers s)" "workers s ! i = Sending r"
      "sendSelectsDone c" "cancelled s" "s' = s\<lparr>workers := (workers s)[i := Exited]\<rparr>"
  | "e = CloseResults" "\<not> resultsClosed s" "list_all (\<lambda>w. w = Exited) (workers s)"
      "s' = s\<lparr>resultsClosed := True\<rparr>"
  | r rest where "e = Aggregate" "\<not> returned s" "results s = r # rest"
      "s' = s\<lparr>results := rest,
                flaggedUsers := (if HasViolation r then insert (ResultUserID r) (flaggedUsers s)
                                 else flaggedUsers s)\<rparr>"
  | "e = Aggregate" "\<not> returned s" "results s = []" "resultsClosed s"
      "s' = s\<lparr>returned := True\<rparr>"
  | "e = Cancel" "\<not> cancelled s" "s' = s\<lparr>cancelled := True\<rparr>"
proof (cases e)
  case (ProducerSend k)
  with assms that(1,2) show ?thesis
    by (auto simp: producerSend_def split: if_splits)
next
  case ProducerReturn
  with assms that(3) show ?thesis
    by (auto simp: producerReturn_def split: if_splits)
next
  case (WorkerStep i)
  with assms have ws: "workerStep c i s = Some s'" by simp
  then have i: "i < length (workers s)"
    by (auto simp: workerStep_def split: if_splits)
  show ?thesis
  proof (cases "workers s ! i")
    case Waiting
    with ws i WorkerStep that(4,5) show ?thesis
      by (cases "userJobs s") (auto simp: workerStep_def split: if_splits)
  next
    case (Holding job)
    with ws i WorkerStep that(6,7) show ?thesis
      by (auto simp: workerStep_def split: if_splits)
  next
    case (Sending r)
    with ws i WorkerStep that(8,9) show ?thesis
      by (auto simp: workerStep_def split: if_splits)
  next
    case Exited
    with ws i show ?thesis by (simp add: workerStep_def)
  qed
next
  case (WorkerAbort i)
  with assms that(10) show ?thesis
    by (auto simp: workerAbort_def split: if_splits worker.splits)
next
  case CloseResults
  with assms that(11) show ?thesis
    by (auto simp: closeResults_def split: if_splits)
next
  case Aggregate
  with assms that(12,13) show ?thesis
    by (cases "results s") (auto simp: aggregate_def split: if_splits)
next
  case Cancel
  with assms that(14) show ?thesis
    by (auto simp: cancel_def split: if_splits)
qed

lemma in_set_updateD: "x \<in> set (ws[i := w]) \<Longrightarrow> x = w \<or> x \<in> set ws"
  using set_update_subset_insert [of ws i w] by auto

lemma Union_update:
  assumes "i < length ws"
  shows "(\<Union>x\<in>set (ws[i := w]). f x) \<union> f (ws ! i) = f w \<union> (\<Union>x\<in>set ws. f x)"
proof -
  have "set ws \<subseteq> insert (ws ! i) (set (ws[i := w]))"
  proof
    fix x assume "x \<in> set ws"
    then obtain j where j: "j < length ws" "x = ws ! j" by (auto simp: in_set_conv_nth)
    show "x \<in> insert (ws ! i) (set (ws[i := w]))"
    proof (cases "j = i")
      case True
      with j show ?thesis by simp
    next
      case False
      with j have "ws[i := w] ! j = x" "j < length (ws[i := w])" by simp_all
      then have "x \<in> set (ws[i := w])" by (metis nth_mem)
      then show ?thesis by simp
    qed
  qed
  moreover have "set (ws[i := w]) \<subseteq> insert w (set ws)"
    by (rule set_update_subset_insert)
  moreover from assms have "w \<in> set (ws[i := w])" by (rule set_update_memI)
  moreover from assms have "ws ! i \<in> set ws" by simp
  ultimately show ?thesis by blast
qed

lemma sum_list_map_update:
  fixes f :: "'a \<Rightarrow> nat"
  assumes "i < length ws"
  shows "sum_list (map f (ws[i := w])) + f (ws ! i) = sum_list (map f ws) + f w"
proof -
  from assms have "sum_list ((map f ws)[i := f w]) = sum_list (map f ws) + f w - map f ws ! i"
    by (intro sum_list_update) simp
  moreover from assms have "map f ws ! i \<le> sum_list (map f ws)"
    by (intro member_le_sum_list) auto
  ultimately show ?thesis using assms by (simp add: map_update)
qed

lemma sound_exec:
  assumes "exec c e s = Some s'" and "sound s"
  shows "sound s'"
  using assms
proof (cases rule: exec_cases)
  case (send k)
  with assms(2) show ?thesis by (auto simp: sound_def)
next
  case (sendPanic k)
  with assms(2) show ?thesis by (auto simp: sound_def)
next
  case prodReturn
  with assms(2) show ?thesis by (auto simp: sound_def)
next
  case (receive i job rest)
  from receive(2) have "workers s ! i \<in> set (workers s)" by (rule nth_mem)
  with receive assms(2) show ?thesis
    by (auto simp: sound_def list_all_iff dest: in_set_updateD)
next
  case (drained i)
  from drained(2) have "workers s ! i \<in> set (workers s)" by (rule nth_mem)
  with drained assms(2) show ?thesis
    by (auto simp: sound_def list_all_iff dest: in_set_updateD)
next
  case (observe i job)
  from observe(2) have "workers s ! i \<in> set (workers s)" by (rule nth_mem)
  with observe assms(2) show ?thesis
    by (auto simp: sound_def list_all_iff dest: in_set_updateD)
next
  case (process i job)
  from process(2) have "workers s ! i \<in> set (workers s)" by (rule nth_mem)
  with process assms(2) show ?thesis
    by (auto simp: sound_def list_all_iff dest: in_set_updateD)
next
  case (resultPanic i r)
  from resultPanic(2) have "workers s ! i \<in> set (workers s)" by (rule nth_mem)
  with resultPanic assms(2) show ?thesis
    by (auto simp: sound_def list_all_iff dest: in_set_updateD)
next
  case (resultSend i r)
  from resultSend(2) have "workers s ! i \<in> set (workers s)" by (rule nth_mem)
  with resultSend assms(2) show ?thesis
    by (auto simp: sound_def list_all_iff dest: in_set_updateD)
next
  case (abort i r)
  from abort(2) have "workers s ! i \<in> set (workers s)" by (rule nth_mem)
  with abort assms(2) show ?thesis
    by (auto simp: sound_def list_all_iff dest: in_set_updateD)
next
  case close
  with assms(2) show ?thesis by (auto simp: sound_def)
next
  case (collect r rest)
  with assms(2) show ?thesis by (auto simp: sound_def)
next
  case finish
  with assms(2) show ?thesis by (auto simp: sound_def)
next
  case cancel
  with assms(2) show ?thesis by (auto simp: sound_def)
qed

lemma stepsLeft_exec:
  assumes "exec c e s = Some s'"
  shows "stepsLeft s' < stepsLeft s"
  using assms
proof (cases rule: exec_cases)
  case (send k)
  then show ?thesis by (simp add: stepsLeft_def)
next
  case (receive i job rest)
  with sum_list_map_update [of i "workers s" weight "Holding job"] show ?thesis
    by (simp add: stepsLeft_def)
next
  case (drained i)
  with sum_list_map_update [of i "workers s" weight Exited] show ?thesis
    by (simp add: stepsLeft_def)
next
  case (observe i job)
  with sum_list_map_update [of i "workers s" weight Exited] show ?thesis
    by (simp add: stepsLeft_def)
next
  case (process i job)
  with sum_list_map_update [of i "workers s" weight
      "Sending (processUser (velocityPeriods c) (JobUserID job) (Transactions job))"]
  show ?thesis by (simp add: stepsLeft_def)
next
  case (resultPanic i r)
  with sum_list_map_update [of i "workers s" weight Exited] show ?thesis
    by (simp add: stepsLeft_def)
next
  case (resultSend i r)
  with sum_list_map_update [of i "workers s" weight Waiting] show ?thesis
    by (simp add: stepsLeft_def)
next
  case (abort i r)
  with sum_list_map_update [of i "workers s" weight Exited] show ?thesis
    by (simp add: stepsLeft_def)
qed (simp_all add: stepsLeft_def)

lemma load_exec:
  assumes "exec c e s = Some s'"
  shows "load s' \<le> load s"
  using assms
proof (cases rule: exec_cases)
  case (send k)
  then show ?thesis by (simp add: load_def)
next
  case (receive i job rest)
  with sum_list_map_update [of i "workers s" busy "Holding job"] show ?thesis
    by (simp add: load_def)
next
  case (drained i)
  with sum_list_map_update [of i "workers s" busy Exited] show ?thesis
    by (simp add: load_def)
next
  case (observe i job)
  with sum_list_map_update [of i "workers s" busy Exited] show ?thesis
    by (simp add: load_def)
next
  case (process i job)
  with sum_list_map_update [of i "workers s" busy
      "Sending (processUser (velocityPeriods c) (JobUserID job) (Transactions job))"]
  show ?thesis by (simp add: load_def)
next
  case (resultPanic i r)
  with sum_list_map_update [of i "workers s" busy Exited] show ?thesis
    by (simp add: load_def)
next
  case (resultSend i r)
  with sum_list_map_update [of i "workers s" busy Waiting] show ?thesis
    by (simp add: load_def)
next
  case (abort i r)
  with sum_list_map_update [of i "workers s" busy Exited] show ?thesis
    by (simp add: load_def)
qed (simp_all add: load_def)

lemma set_without_nth:
  assumes "k < length xs"
  shows "insert (xs ! k) (set (take k xs @ drop (Suc k) xs)) = set xs"
proof -
  from assms have "xs = take k xs @ xs ! k # drop (Suc k) xs" by (rule id_take_nth_drop)
  then have "set xs = set (take k xs @ xs ! k # drop (Suc k) xs)" by simp
  then show ?thesis by simp
qed

lemma workerFlag_processUser:
  "resultFlag (processUser ps (JobUserID job) (Transactions job))
     = jobFlag ps (JobUserID job, Transactions job)"
  by (simp add: resultFlag_def processUser_def jobFlag_def)

lemma cover_exec:
  assumes "exec c e s = Some s'"
  shows "cover c s' \<subseteq> cover c s \<and> (\<not> cancelled s \<and> \<not> panicked s' \<longrightarrow> cover c s' = cover c s)"
  using assms
proof (cases rule: exec_cases)
  case (send k)
  let ?ps = "velocityPeriods c"
  from send(3) have "insert (pending s ! k) (set (take k (pending s) @ drop (Suc k) (pending s)))
      = set (pending s)" by (rule set_without_nth)
  then have "(\<Union>p\<in>set (pending s). jobFlag ?ps p)
      = jobFlag ?ps (pending s ! k)
        \<union> (\<Union>p\<in>set (take k (pending s) @ drop (Suc k) (pending s)). jobFlag ?ps p)"
    by (metis UN_insert)
  with send show ?thesis by (auto simp: cover_def)
next
  case (sendPanic k)
  then show ?thesis by (simp add: cover_def)
next
  case prodReturn
  then show ?thesis by (simp add: cover_def)
next
  case (receive i job rest)
  with Union_update [of i "workers s" "workerFlag (velocityPeriods c)" "Holding job"]
  show ?thesis by (auto simp: cover_def)
next
  case (drained i)
  with Union_update [of i "workers s" "workerFlag (velocityPeriods c)" Exited]
  show ?thesis by (auto simp: cover_def)
next
  case (observe i job)
  with Union_update [of i "workers s" "workerFlag (velocityPeriods c)" Exited]
  show ?thesis by (auto simp: cover_def)
next
  case (process i job)
  let ?w = "Sending (processUser (velocityPeriods c) (JobUserID job) (Transactions job))"
  let ?f = "workerFlag (velocityPeriods c)"
  from process have same: "?f ?w = ?f (workers s ! i)"
    by (simp add: workerFlag_processUser)
  from process(2) have "?w \<in> set ((workers s)[i := ?w])" by (rule set_update_memI)
  then have a: "?f ?w \<subseteq> (\<Union>x\<in>set ((workers s)[i := ?w]). ?f x)" by blast
  from process(2) have "workers s ! i \<in> set (workers s)" by (rule nth_mem)
  then have b: "?f (workers s ! i) \<subseteq> (\<Union>x\<in>set (workers s). ?f x)" by blast
  from Union_update [OF process(2), of ?f ?w] same a b
  have "(\<Union>x\<in>set ((workers s)[i := ?w]). ?f x) = (\<Union>x\<in>set (workers s). ?f x)"
    by blast
  with process show ?thesis by (simp add: cover_def)
next
  case (resultPanic i r)
  with Union_update [of i "workers s" "workerFlag (velocityPeriods c)" Exited]
  show ?thesis by (auto simp: cover_def)
next
  case (resultSend i r)
  with Union_update [of i "workers s" "workerFlag (velocityPeriods c)" Waiting]
  show ?thesis by (auto simp: cover_def)
next
  case (abort i r)
  with Union_update [of i "workers s" "workerFlag (velocityPeriods c)" Exited]
  show ?thesis by (auto simp: cover_def)
next
  case close
  then show ?thesis by (simp add: cover_def)
next
  case (collect r rest)
  then show ?thesis by (auto simp: cover_def resultFlag_def)
next
  case finish
  then show ?thesis by (simp add: cover_def)
next
  case cancel
  then show ?thesis by (simp add: cover_def)
qed

lemma run_Cons_Some:
  "run c (e # es) s = Some t \<longleftrightarrow> (\<exists>s'. exec c e s = Some s' \<and> run c es s' = Some t)"
  by (cases "exec c e s") simp_all

lemma run_append:
  "run c (es @ es') s = (case run c es s of None \<Rightarrow> None | Some t \<Rightarrow> run c es' t)"
proof (induction es arbitrary: s)
  case Nil
  then show ?case by simp
next
  case (Cons e es)
  then show ?case by (cases "exec c e s") simp_all
qed

lemma sound_run: "run c es s = Some t \<Longrightarrow> sound s \<Longrightarrow> sound t"
proof (induction es arbitrary: s)
  case Nil
  then show ?case by simp
next
  case (Cons e es)
  from Cons.prems(1) obtain s' where s': "exec c e s = Some s'" "run c es s' = Some t"
    unfolding run_Cons_Some by blast
  from sound_exec [OF s'(1) Cons.prems(2)] Cons.IH [OF s'(2)] show ?case by simp
qed

lemma cancelled_exec:
  assumes "exec c e s = Some s'" and "cancelled s"
  shows "cancelled s'"
  using assms(1)
proof (cases rule: exec_cases)
qed (use assms in simp_all)

lemma cancelled_run: "run c es s = Some t \<Longrightarrow> cancelled s \<Longrightarrow> cancelled t"
proof (induction es arbitrary: s)
  case Nil
  then show ?case by simp
next
  case (Cons e es)
  from Cons.prems(1) obtain s' where s': "exec c e s = Some s'" "run c es s' = Some t"
    unfolding run_Cons_Some by blast
  from cancelled_exec [OF s'(1) Cons.prems(2)] Cons.IH [OF s'(2)] show ?case by simp
qed

lemma not_cancelled_exec:
  assumes "exec c e s = Some s'" and "e \<noteq> Cancel"
  shows "cancelled s' = cancelled s"
  using assms(1)
proof (cases rule: exec_cases)
qed (use assms in simp_all)

lemma not_cancelled_run:
  "run c es s = Some t \<Longrightarrow> Cancel \<notin> set es \<Longrightarrow> cancelled t = cancelled s"
proof (induction es arbitrary: s)
  case Nil
  then show ?case by simp
next
  case (Cons e es)
  from Cons.prems(1) obtain s' where s': "exec c e s = Some s'" "run c es s' = Some t"
    unfolding run_Cons_Some by blast
  from Cons.prems(2) have "e \<noteq> Cancel" "Cancel \<notin> set es" by auto
  with not_cancelled_exec [OF s'(1)] Cons.IH [OF s'(2)] show ?case by simp
qed

lemma cover_run_subset: "run c es s = Some t \<Longrightarrow> cover c t \<subseteq> cover c s"
proof (induction es arbitrary: s)
  case Nil
  then show ?case by simp
next
  case (Cons e es)
  from Cons.prems(1) obtain s' where s': "exec c e s = Some s'" "run c es s' = Some t"
    unfolding run_Cons_Some by blast
  from cover_exec [OF s'(1)] Cons.IH [OF s'(2)] show ?case by blast
qed

lemma cover_run_eq:
  "run c es s = Some t \<Longrightarrow> sound s \<Longrightarrow> \<not> cancelled t \<Longrightarrow> cover c t = cover c s"
proof (induction es arbitrary: s)
  case Nil
  then show ?case by simp
next
  case (Cons e es)
  from Cons.prems(1) obtain s' where s': "exec c e s = Some s'" "run c es s' = Some t"
    unfolding run_Cons_Some by blast
  from sound_exec [OF s'(1) Cons.prems(2)] have snd: "sound s'" .
  then have "\<not> panicked s'" by (simp add: sound_def)
  moreover from cancelled_run [OF s'(2)] Cons.prems(3) have nc: "\<not> cancelled s'" by blast
  with cancelled_exec [OF s'(1)] have "\<not> cancelled s" by blast
  ultimately have "cover c s' = cover c s" using cover_exec [OF s'(1)] by blast
  with Cons.IH [OF s'(2) snd Cons.prems(3)] show ?case by simp
qed

lemma stepsLeft_run: "run c es s = Some t \<Longrightarrow> length es + stepsLeft t \<le> stepsLeft s"
proof (induction es arbitrary: s)
  case Nil
  then show ?case by simp
next
  case (Cons e es)
  from Cons.prems(1) obtain s' where s': "exec c e s = Some s'" "run c es s' = Some t"
    unfolding run_Cons_Some by blast
  from stepsLeft_exec [OF s'(1)] Cons.IH [OF s'(2)] show ?case by simp
qed

lemma load_run: "run c es s = Some t \<Longrightarrow> load t \<le> load s"
proof (induction es arbitrary: s)
  case Nil
  then show ?case by simp
next
  case (Cons e es)
  from Cons.prems(1) obtain s' where s': "exec c e s = Some s'" "run c es s' = Some t"
    unfolding run_Cons_Some by blast
  from load_exec [OF s'(1)] Cons.IH [OF s'(2)] show ?case by simp
qed

lemma workers_length_exec:
  assumes "exec c e s = Some s'"
  shows "length (workers s') = length (workers s)"
  using assms(1)
proof (cases rule: exec_cases)
qed (use assms in simp_all)

lemma workers_length_run: "run c es s = Some t \<Longrightarrow> length (workers t) = length (workers s)"
proof (induction es arbitrary: s)
  case Nil
  then show ?case by simp
next
  case (Cons e es)
  from Cons.prems(1) obtain s' where s': "exec c e s = Some s'" "run c es s' = Some t"
    unfolding run_Cons_Some by blast
  from workers_length_exec [OF s'(1)] Cons.IH [OF s'(2)] show ?case by simp
qed

lemma started_exec:
  assumes "exec c e s = Some s'" and "cancelled s"
  shows "started s' = started s"
  using assms(1)
proof (cases rule: exec_cases)
qed (use assms in simp_all)

lemma started_run: "run c es s = Some t \<Longrightarrow> cancelled s \<Longrightarrow> started t = started s"
proof (induction es arbitrary: s)
  case Nil
  then show ?case by simp
next
  case (Cons e es)
  from Cons.prems(1) obtain s' where s': "exec c e s = Some s'" "run c es s' = Some t"
    unfolding run_Cons_Some by blast
  from started_exec [OF s'(1) Cons.prems(2)] cancelled_exec [OF s'(1) Cons.prems(2)]
    Cons.IH [OF s'(2)]
  show ?case by simp
qed

lemma flaggedUsers_returned_exec:
  assumes "exec c e s = Some s'" and "returned s"
  shows "returned s' \<and> flaggedUsers s' = flaggedUsers s"
  using assms(1)
proof (cases rule: exec_cases)
qed (use assms in simp_all)

lemma completes:
  "\<exists>es t. Cancel \<notin> set es \<and> run c es s = Some t \<and> quiescent c t"
proof (induction s rule: measure_induct_rule [of stepsLeft])
  case (less s)
  show ?case
  proof (cases "quiescent c s")
    case True
    then have "Cancel \<notin> set [] \<and> run c [] s = Some s \<and> quiescent c s" by simp
    then show ?thesis by blast
  next
    case False
    then obtain e s' where e: "e \<noteq> Cancel" "exec c e s = Some s'"
      unfolding quiescent_def by auto
    from stepsLeft_exec [OF e(2)] less obtain es t
      where es: "Cancel \<notin> set es" "run c es s' = Some t" "quiescent c t"
      by blast
    with e have "Cancel \<notin> set (e # es) \<and> run c (e # es) s = Some t \<and> quiescent c t"
      by simp
    then show ?thesis by blast
  qed
qed

lemma flaggedUsers_cover: "flaggedUsers s \<subseteq> cover c s"
  by (auto simp: cover_def)

lemma final_cover:
  assumes "sound s" "returned s" "workers s \<noteq> []" "\<not> cancelled s"
  shows "cover c s = flaggedUsers s"
proof -
  from assms(1,2) have res: "results s = []" and ex: "\<forall>w\<in>set (workers s). w = Exited"
    by (simp_all add: sound_def list_all_iff)
  from assms(3) obtain w where "w \<in> set (workers s)" by (cases "workers s") auto
  with ex have "Exited \<in> set (workers s)" by auto
  with assms(1,4) have "userJobs s = []" "producerDone s" by (auto simp: sound_def)
  with assms(1,4) have "pending s = []" "userJobs s = []" by (auto simp: sound_def)
  moreover from ex have "(\<Union>w\<in>set (workers s). workerFlag (velocityPeriods c) w) = {}"
    by auto
  ultimately show ?thesis using res by (simp add: cover_def)
qed

lemma quiescent_allExited:
  assumes snd: "sound s" and q: "quiescent c s"
    and room: "\<And>r. Sending r \<in> set (workers s) \<Longrightarrow> 0 < resultsCap c"
    and jobs: "pending s \<noteq> [] \<Longrightarrow> \<not> cancelled s \<Longrightarrow>
        length (userJobs s) < jobsCap c \<or> (userJobs s \<noteq> [] \<and> workers s \<noteq> [])"
  shows "allExited s"
proof -
  from q have qe: "exec c e s = None" if "e \<noteq> Cancel" for e
    using that by (simp add: quiescent_def)
  have agg: "results s = [] \<and> \<not> resultsClosed s" if "\<not> returned s"
  proof -
    from qe [of Aggregate] have "aggregate s = None" by simp
    with that show ?thesis
      by (cases "results s") (auto simp: aggregate_def split: if_splits)
  qed
  have res_empty: "results s = []"
    using agg snd by (cases "returned s") (auto simp: sound_def)
  have wk: "workers s ! i = Exited
      \<or> (workers s ! i = Waiting \<and> userJobs s = [] \<and> \<not> userJobsClosed s)"
    if i: "i < length (workers s)" for i
  proof -
    from qe [of "WorkerStep i"] have none: "workerStep c i s = None" by simp
    show ?thesis
    proof (cases "workers s ! i")
      case Waiting
      with none i show ?thesis
        by (cases "userJobs s") (auto simp: workerStep_def split: if_splits)
    next
      case (Holding job)
      with none i show ?thesis by (auto simp: workerStep_def split: if_splits)
    next
      case (Sending r)
      from i have "workers s ! i \<in> set (workers s)" by (rule nth_mem)
      with Sending have "Sending r \<in> set (workers s)" by simp
      then have "0 < resultsCap c" by (rule room)
      with none i Sending res_empty show ?thesis
        by (auto simp: workerStep_def split: if_splits)
    next
      case Exited
      then show ?thesis by simp
    qed
  qed
  have prod: "producerDone s"
  proof (rule ccontr)
    assume np: "\<not> producerDone s"
    from qe [of ProducerReturn] have "producerReturn s = None" by simp
    with np have pend: "pending s \<noteq> []" and nc: "\<not> cancelled s"
      by (auto simp: producerReturn_def split: if_splits)
    from qe [of "ProducerSend 0"] have "producerSend c 0 s = None" by simp
    with np pend have full: "\<not> length (userJobs s) < jobsCap c"
      by (auto simp: producerSend_def split: if_splits)
    with jobs [OF pend nc] have uj: "userJobs s \<noteq> []" and ws: "workers s \<noteq> []" by simp_all
    from ws have len: "0 < length (workers s)" by simp
    with uj wk [of 0] have "workers s ! 0 = Exited" by blast
    moreover from len have "workers s ! 0 \<in> set (workers s)" by (rule nth_mem)
    ultimately have "Exited \<in> set (workers s)" by simp
    with snd nc have "userJobsClosed s" by (auto simp: sound_def)
    with snd np show False by (simp add: sound_def)
  qed
  with snd have closed: "userJobsClosed s" by (simp add: sound_def)
  with wk have "\<forall>i<length (workers s). workers s ! i = Exited" by blast
  then have ex: "list_all (\<lambda>w. w = Exited) (workers s)"
    by (simp add: list_all_length)
  from qe [of CloseResults] have "closeResults s = None" by simp
  with ex have rc: "resultsClosed s" by (auto simp: closeResults_def split: if_splits)
  with agg have "returned s" by blast
  with prod ex rc show ?thesis by (simp add: allExited_def)
qed

lemma sound_start: "sound (start jobs n)"
  by (auto simp: sound_def start_def)

lemma load_start: "load (start jobs n) = length jobs"
  by (simp add: load_def start_def)

lemma cover_start:
  "cover c (start jobs n) = {u. \<exists>txs. (u, txs) \<in> set jobs \<and> sortAndCheck (velocityPeriods c) txs}"
  by (auto simp: cover_def start_def jobFlag_def split: if_splits)

lemma cover_start_Process:
  "velocityPeriods c = ps \<Longrightarrow> cover c (start (groupByUser transactions) n) = Process ps transactions"
  by (simp add: cover_start Process_def flagUsers_set)

lemma Sending_load:
  assumes "Sending r \<in> set (workers s)"
  shows "0 < load s"
proof -
  from assms have "busy (Sending r) \<in> set (map busy (workers s))" by force
  then have "busy (Sending r) \<le> sum_list (map busy (workers s))"
    by (intro member_le_sum_list) auto
  then show ?thesis by (simp add: load_def)
qed

lemma outcome_Some:
  "outcome r = Some F \<longleftrightarrow> (\<exists>t. r = Some t \<and> returned t \<and> flaggedUsers t = F)"
  by (cases r) (auto simp: outcome_def)

subsection \<open>The worker pool\<close>

lemma pool_sound:
  "run (poolConfig v transactions) es (poolStart v transactions) = Some t \<Longrightarrow> sound t"
  unfolding poolStart_def by (erule sound_run) (rule sound_start)

lemma pool_load:
  assumes "run (poolConfig v transactions) es (poolStart v transactions) = Some t"
  shows "load t \<le> jobsCap (poolConfig v transactions)"
    and "load t \<le> resultsCap (poolConfig v transactions)"
  using load_run [OF assms] by (simp_all add: poolStart_def load_start poolConfig_def)

lemma pool_cover_start:
  "cover (poolConfig v transactions) (poolStart v transactions)
     = Process (PoolPeriods v) transactions"
  unfolding poolStart_def by (rule cover_start_Process) (simp add: poolConfig_def)

lemma pool_subset:
  assumes "WorkerProcess v es transactions = Some F"
  shows "F \<subseteq> Process (PoolPeriods v) transactions"
proof -
  from assms obtain t
    where t: "run (poolConfig v transactions) es (poolStart v transactions) = Some t"
      "flaggedUsers t = F"
    unfolding WorkerProcess_def outcome_Some by blast
  from cover_run_subset [OF t(1)] flaggedUsers_cover [of t "poolConfig v transactions"] t(2)
  show ?thesis by (simp add: pool_cover_start)
qed

lemma pool_workers:
  assumes "run (poolConfig v transactions) es (poolStart v transactions) = Some t"
  shows "length (workers t) = nat (PoolWorkerCount v)"
  using workers_length_run [OF assms] by (simp add: poolStart_def start_def)

lemma pool_exact:
  assumes ret: "WorkerProcess v es transactions = Some F"
    and nc: "Cancel \<notin> set es" and n: "0 < PoolWorkerCount v"
  shows "F = Process (PoolPeriods v) transactions"
proof -
  let ?c = "poolConfig v transactions"
  from ret obtain t
    where t: "run ?c es (poolStart v transactions) = Some t" "returned t" "flaggedUsers t = F"
    unfolding WorkerProcess_def outcome_Some by blast
  from not_cancelled_run [OF t(1) nc] have c: "\<not> cancelled t"
    by (simp add: poolStart_def start_def)
  from pool_workers [OF t(1)] n have w: "workers t \<noteq> []" by auto
  have snd0: "sound (poolStart v transactions)" by (simp add: poolStart_def sound_start)
  from final_cover [OF pool_sound [OF t(1)] t(2) w c, of ?c] cover_run_eq [OF t(1) snd0 c] t(3)
  show ?thesis by (simp add: pool_cover_start)
qed

lemma pool_quiescent:
  assumes r: "run (poolConfig v transactions) es (poolStart v transactions) = Some t"
    and q: "quiescent (poolConfig v transactions) t"
  shows "allExited t"
proof (rule quiescent_allExited [OF pool_sound [OF r] q])
  fix r' assume "Sending r' \<in> set (workers t)"
  then have "0 < load t" by (rule Sending_load)
  with pool_load(2) [OF r] show "0 < resultsCap (poolConfig v transactions)" by simp
next
  assume "pending t \<noteq> []"
  then have "length (userJobs t) < load t" by (simp add: load_def)
  with pool_load(1) [OF r]
  show "length (userJobs t) < jobsCap (poolConfig v transactions)
      \<or> (userJobs t \<noteq> [] \<and> workers t \<noteq> [])" by simp
qed

lemma pool_continues:
  assumes r: "run (poolConfig v transactions) es (poolStart v transactions) = Some t"
  shows "\<exists>es' t'. Cancel \<notin> set es'
      \<and> run (poolConfig v transactions) (es @ es') (poolStart v transactions) = Some t'
      \<and> allExited t'"
proof -
  from completes [of "poolConfig v transactions" t] obtain es' t'
    where c: "Cancel \<notin> set es'" "run (poolConfig v transactions) es' t = Some t'"
      "quiescent (poolConfig v transactions) t'"
    by blast
  from r c(2) have r': "run (poolConfig v transactions) (es @ es') (poolStart v transactions) = Some t'"
    by (simp add: run_append)
  from pool_quiescent [OF r' c(3)] c(1) r' show ?thesis by blast
qed

lemma pool_returns:
  "\<exists>es F. Cancel \<notin> set es \<and> WorkerProcess v es transactions = Some F"
proof -
  have "run (poolConfig v transactions) [] (poolStart v transactions) = Some (poolStart v transactions)"
    by simp
  from pool_continues [OF this] obtain es' t'
    where "Cancel \<notin> set es'"
      "run (poolConfig v transactions) es' (poolStart v transactions) = Some t'" "allExited t'"
    by auto
  then have "Cancel \<notin> set es' \<and> WorkerProcess v es' transactions = Some (flaggedUsers t')"
    by (simp add: WorkerProcess_def outcome_def allExited_def)
  then show ?thesis by blast
qed

subsection \<open>The pipeline\<close>

lemma pipeline_sound:
  "run (pipelineConfig v) es (pipelineStart v transactions) = Some t \<Longrightarrow> sound t"
  unfolding pipelineStart_def by (erule sound_run) (rule sound_start)

lemma pipeline_cover_start:
  "cover (pipelineConfig v) (pipelineStart v transactions)
     = Process (PipelinePeriods v) transactions"
  unfolding pipelineStart_def by (rule cover_start_Process) (simp add: pipelineConfig_def)

lemma pipeline_subset:
  assumes "ConcurrentProcess v es transactions = Some F"
  shows "F \<subseteq> Process (PipelinePeriods v) transactions"
proof -
  from assms obtain t
    where t: "run (pipelineConfig v) es (pipelineStart v transactions) = Some t"
      "flaggedUsers t = F"
    unfolding ConcurrentProcess_def outcome_Some by blast
  from cover_run_subset [OF t(1)] flaggedUsers_cover [of t "pipelineConfig v"] t(2)
  show ?thesis by (simp add: pipeline_cover_start)
qed

lemma pipeline_workers:
  assumes "run (pipelineConfig v) es (pipelineStart v transactions) = Some t"
  shows "length (workers t) = nat (PipelineWorkerCount v)"
  using workers_length_run [OF assms] by (simp add: pipelineStart_def start_def)

lemma pipeline_exact:
  assumes ret: "ConcurrentProcess v es transactions = Some F"
    and nc: "Cancel \<notin> set es" and n: "0 < PipelineWorkerCount v"
  shows "F = Process (PipelinePeriods v) transactions"
proof -
  let ?c = "pipelineConfig v"
  from ret obtain t
    where t: "run ?c es (pipelineStart v transactions) = Some t" "returned t" "flaggedUsers t = F"
    unfolding ConcurrentProcess_def outcome_Some by blast
  from not_cancelled_run [OF t(1) nc] have c: "\<not> cancelled t"
    by (simp add: pipelineStart_def start_def)
  from pipeline_workers [OF t(1)] n have w: "workers t \<noteq> []" by auto
  have snd0: "sound (pipelineStart v transactions)" by (simp add: pipelineStart_def sound_start)
  from final_cover [OF pipeline_sound [OF t(1)] t(2) w c, of ?c] cover_run_eq [OF t(1) snd0 c] t(3)
  show ?thesis by (simp add: pipeline_cover_start)
qed

lemma pipeline_no_workers:
  assumes ret: "ConcurrentProcess v es transactions = Some F"
    and n: "PipelineWorkerCount v \<le> 0"
  shows "F = {}"
proof -
  from ret obtain t
    where t: "run (pipelineConfig v) es (pipelineStart v transactions) = Some t"
      "flaggedUsers t = F"
    unfolding ConcurrentProcess_def outcome_Some by blast
  from pipeline_workers [OF t(1)] n have "workers t = []" by simp
  with pipeline_sound [OF t(1)] t(2) show ?thesis by (simp add: sound_def)
qed

lemma pipeline_no_workers_returns:
  assumes "PipelineWorkerCount v \<le> 0"
  shows "ConcurrentProcess v [CloseResults, Aggregate] transactions = Some {}"
  using assms
  by (simp add: ConcurrentProcess_def pipelineStart_def start_def closeResults_def
      aggregate_def outcome_def)

lemma pipeline_quiescent:
  assumes r: "run (pipelineConfig v) es (pipelineStart v transactions) = Some t"
    and q: "quiescent (pipelineConfig v) t"
    and live: "0 < PipelineWorkerCount v \<or> cancelled t"
  shows "allExited t"
proof (rule quiescent_allExited [OF pipeline_sound [OF r] q])
  fix r' assume "Sending r' \<in> set (workers t)"
  show "0 < resultsCap (pipelineConfig v)" by (simp add: pipelineConfig_def)
next
  assume "pending t \<noteq> []" and "\<not> cancelled t"
  with live pipeline_workers [OF r] have "workers t \<noteq> []" by auto
  moreover have "userJobs t \<noteq> []" if "\<not> length (userJobs t) < jobsCap (pipelineConfig v)"
    using that by (auto simp: pipelineConfig_def)
  ultimately show "length (userJobs t) < jobsCap (pipelineConfig v)
      \<or> (userJobs t \<noteq> [] \<and> workers t \<noteq> [])" by blast
qed

lemma pipeline_continues:
  assumes r: "run (pipelineConfig v) es (pipelineStart v transactions) = Some t"
    and live: "0 < PipelineWorkerCount v \<or> cancelled t"
  shows "\<exists>es' t'. Cancel \<notin> set es'
      \<and> run (pipelineConfig v) (es @ es') (pipelineStart v transactions) = Some t'
      \<and> allExited t'"
proof -
  from completes [of "pipelineConfig v" t] obtain es' t'
    where c: "Cancel \<notin> set es'" "run (pipelineConfig v) es' t = Some t'"
      "quiescent (pipelineConfig v) t'"
    by blast
  from r c(2) have r': "run (pipelineConfig v) (es @ es') (pipelineStart v transactions) = Some t'"
    by (simp add: run_append)
  from live cancelled_run [OF c(2)] have "0 < PipelineWorkerCount v \<or> cancelled t'" by blast
  from pipeline_quiescent [OF r' c(3) this] c(1) r' show ?thesis by blast
qed

lemma pipeline_returns:
  "\<exists>es F. Cancel \<notin> set es \<and> ConcurrentProcess v es transactions = Some F"
proof (cases "0 < PipelineWorkerCount v")
  case True
  have "run (pipelineConfig v) [] (pipelineStart v transactions) = Some (pipelineStart v transactions)"
    by simp
  from pipeline_continues [OF this] True obtain es' t'
    where "Cancel \<notin> set es'"
      "run (pipelineConfig v) es' (pipelineStart v transactions) = Some t'" "allExited t'"
    by auto
  then have "Cancel \<notin> set es' \<and> ConcurrentProcess v es' transactions = Some (flaggedUsers t')"
    by (simp add: ConcurrentProcess_def outcome_def allExited_def)
  then show ?thesis by blast
next
  case False
  then have "ConcurrentProcess v [CloseResults, Aggregate] transactions = Some {}"
    by (intro pipeline_no_workers_returns) simp
  moreover have "Cancel \<notin> set [CloseResults, Aggregate]" by simp
  ultimately show ?thesis by blast
qed

subsection \<open>Constructors and completion of the two evaluators\<close>

lemma NewWorker_simps:
  "PoolPeriods (NewWorkerVelocityProcessor ps n) = ps"
  "PoolWorkerCount (NewWorkerVelocityProcessor ps n) = (if n \<le> 0 then 4 else n)"
  by (simp_all add: NewWorkerVelocityProcessor_def)

lemma NewConcurrent_simps:
  "PipelinePeriods (NewConcurrentVelocityProcessor ps n) = ps"
  "PipelineWorkerCount (NewConcurrentVelocityProcessor ps n) = n"
  by (simp_all add: NewConcurrentVelocityProcessor_def)

lemma pool_finishes:
  assumes r: "run (poolConfig v transactions) es (poolStart v transactions) = Some t"
    and nc: "Cancel \<notin> set es" and n: "0 < PoolWorkerCount v"
  shows "\<exists>es'. Cancel \<notin> set es'
      \<and> WorkerProcess v (es @ es') transactions = Some (Process (PoolPeriods v) transactions)"
proof -
  from pool_continues [OF r] obtain es' t'
    where c: "Cancel \<notin> set es'"
      "run (poolConfig v transactions) (es @ es') (poolStart v transactions) = Some t'"
      "allExited t'"
    by blast
  then have ret: "WorkerProcess v (es @ es') transactions = Some (flaggedUsers t')"
    by (simp add: WorkerProcess_def outcome_def allExited_def)
  from nc c(1) have "Cancel \<notin> set (es @ es')" by simp
  from pool_exact [OF ret this n] ret c(1) show ?thesis by auto
qed

lemma pipeline_finishes:
  assumes r: "run (pipelineConfig v) es (pipelineStart v transactions) = Some t"
    and nc: "Cancel \<notin> set es" and n: "0 < PipelineWorkerCount v"
  shows "\<exists>es'. Cancel \<notin> set es'
      \<and> ConcurrentProcess v (es @ es') transactions = Some (Process (PipelinePeriods v) transactions)"
proof -
  from pipeline_continues [OF r] n obtain es' t'
    where c: "Cancel \<notin> set es'"
      "run (pipelineConfig v) (es @ es') (pipelineStart v transactions) = Some t'"
      "allExited t'"
    by blast
  then have ret: "ConcurrentProcess v (es @ es') transactions = Some (flaggedUsers t')"
    by (simp add: ConcurrentProcess_def outcome_def allExited_def)
  from nc c(1) have "Cancel \<notin> set (es @ es')" by simp
  from pipeline_exact [OF ret this n] ret c(1) show ?thesis by auto
qed

lemma pool_reach:
  assumes r: "run (poolConfig v transactions) es (poolStart v transactions) = Some t"
  shows "length es \<le> stepsLeft (poolStart v transactions)" and "\<not> panicked t"
    and "flaggedUsers t \<subseteq> Process (PoolPeriods v) transactions"
proof -
  from stepsLeft_run [OF r] show "length es \<le> stepsLeft (poolStart v transactions)" by simp
  from pool_sound [OF r] show "\<not> panicked t" by (simp add: sound_def)
  from cover_run_subset [OF r] flaggedUsers_cover [of t "poolConfig v transactions"]
  show "flaggedUsers t \<subseteq> Process (PoolPeriods v) transactions"
    by (simp add: pool_cover_start)
qed

lemma pipeline_reach:
  assumes r: "run (pipelineConfig v) es (pipelineStart v transactions) = Some t"
  shows "length es \<le> stepsLeft (pipelineStart v transactions)" and "\<not> panicked t"
    and "flaggedUsers t \<subseteq> Process (PipelinePeriods v) transactions"
proof -
  from stepsLeft_run [OF r] show "length es \<le> stepsLeft (pipelineStart v transactions)" by simp
  from pipeline_sound [OF r] show "\<not> panicked t" by (simp add: sound_def)
  from cover_run_subset [OF r] flaggedUsers_cover [of t "pipelineConfig v"]
  show "flaggedUsers t \<subseteq> Process (PipelinePeriods v) transactions"
    by (simp add: pipeline_cover_start)
qed

lemma Process_Nil: "Process periods [] = {}"
  by (simp add: Process_def groupByUser_def flagUsers_def)

lemma Process_no_periods: "Process [] transactions = {}"
  by (simp add: Process_dense)

section \<open>The heap-level evaluator\<close>

lemma appendTx_frame:
  assumes "appendTx grow h s x = (h', s')"
    and "sliceLen s < sliceCap s \<Longrightarrow> n \<le> sliceArray s"
    and "n \<le> nextAddr h"
  shows "n \<le> nextAddr h'" and "\<forall>a<n. arrays h' a = arrays h a" and "n \<le> sliceArray s'"
  using assms by (auto simp: appendTx_def Let_def split: if_splits)

lemma lookupSlice_cases:
  "lookupSlice m k = nilSlice \<or> (k, lookupSlice m k) \<in> set m"
  by (auto simp: lookupSlice_def split: option.splits dest: map_of_SomeD)

lemma set_assign_subset: "set (assign k v m) \<subseteq> insert (k, v) (set m)"
  by (induction m) (auto split: if_splits)

lemma partitionLoop_frame:
  assumes "partitionLoop grow input i h m = (h', m')"
    and "n \<le> nextAddr h"
    and "\<forall>(u, s)\<in>set m. n \<le> sliceArray s"
  shows "n \<le> nextAddr h' \<and> (\<forall>a<n. arrays h' a = arrays h a)
    \<and> (\<forall>(u, s)\<in>set m'. n \<le> sliceArray s)"
  using assms
proof (induction grow input i h m rule: partitionLoop.induct)
  case (1 grow input i h m)
  show ?case
  proof (cases "i < sliceLen input")
    case False
    with "1.prems" show ?thesis by (simp add: partitionLoop.simps)
  next
    case True
    define tx where "tx = arrays h (sliceArray input) ! (sliceOff input + i)"
    define s where "s = lookupSlice m (UserID tx)"
    obtain h1 s1 where ap: "appendTx grow h s tx = (h1, s1)" by (cases "appendTx grow h s tx")
    from True "1.prems"(1) ap
    have rec: "partitionLoop grow input (i + 1) h1 (assign (UserID tx) s1 m) = (h', m')"
      by (subst (asm) partitionLoop.simps) (simp add: tx_def s_def Let_def)
    have "n \<le> sliceArray s" if "sliceLen s < sliceCap s"
    proof -
      from that have "s \<noteq> nilSlice" by (auto simp: nilSlice_def)
      with lookupSlice_cases [of m "UserID tx"] have "(UserID tx, s) \<in> set m"
        by (simp add: s_def)
      with "1.prems"(3) show ?thesis by auto
    qed
    from appendTx_frame [OF ap this "1.prems"(2)]
    have f: "n \<le> nextAddr h1" "\<forall>a<n. arrays h1 a = arrays h a" "n \<le> sliceArray s1"
      by simp_all
    with "1.prems"(3) set_assign_subset [of "UserID tx" s1 m]
    have m1: "\<forall>(u, s)\<in>set (assign (UserID tx) s1 m). n \<le> sliceArray s" by auto
    from ap have eq: "(h1, s1) = appendTx grow h (lookupSlice m (UserID tx)) tx"
      by (simp add: s_def)
    from "1.IH" [OF True tx_def refl eq rec f(1) m1]
    have "n \<le> nextAddr h' \<and> (\<forall>a<n. arrays h' a = arrays h1 a)
        \<and> (\<forall>(u, s)\<in>set m'. n \<le> sliceArray s)" .
    with f(2) show ?thesis by simp
  qed
qed

lemma sortSliceH_frame:
  "n \<le> sliceArray s \<Longrightarrow> a < n \<Longrightarrow> arrays (sortSliceH h s) a = arrays h a"
  by (simp add: sortSliceH_def)

lemma flagUsersH_frame:
  assumes "\<forall>(u, s)\<in>set jobs. n \<le> sliceArray s" and "a < n"
  shows "arrays (fst (flagUsersH periods jobs (h, flagged))) a = arrays h a"
  using assms(1)
proof (induction jobs arbitrary: h flagged)
  case Nil
  then show ?case by (simp add: flagUsersH_def)
next
  case (Cons job jobs)
  obtain u s where job: "job = (u, s)" by (cases job)
  let ?h = "sortSliceH h s"
  let ?F = "if hasViolatedVelocityPeriods periods (contents ?h s) then insert u flagged else flagged"
  have step: "flagUsersH periods (job # jobs) (h, flagged) = flagUsersH periods jobs (?h, ?F)"
    by (simp add: flagUsersH_def job processUserH_def Let_def)
  from Cons.prems have "n \<le> sliceArray s" and rest: "\<forall>(u, s)\<in>set jobs. n \<le> sliceArray s"
    by (auto simp: job)
  with assms(2) have "arrays ?h a = arrays h a" by (simp add: sortSliceH_frame)
  with Cons.IH [OF rest, of ?h ?F] step show ?case by simp
qed

lemma ProcessH_frame:
  assumes "a < nextAddr h"
  shows "arrays (fst (ProcessH grow periods h input)) a = arrays h a"
proof -
  obtain h1 m where p: "partitionLoop grow input 0 h [] = (h1, m)"
    by (cases "partitionLoop grow input 0 h []")
  from partitionLoop_frame [OF p, of "nextAddr h"] assms
  have f: "arrays h1 a = arrays h a" "\<forall>(u, s)\<in>set m. nextAddr h \<le> sliceArray s" by auto
  from flagUsersH_frame [OF f(2) assms, of periods h1 "{}"] f(1) p
  show ?thesis by (simp add: ProcessH_def)
qed

lemma contents_nilSlice: "contents h nilSlice = []"
  by (simp add: contents_def nilSlice_def)

lemma appendTx_result:
  assumes ap: "appendTx grow h s x = (h', s')"
    and off: "sliceOff s = 0"
    and len: "sliceLen s \<le> length (arrays h (sliceArray s))"
    and cap: "sliceLen s < sliceCap s \<Longrightarrow> sliceCap s = length (arrays h (sliceArray s))"
  shows "contents h' s' = contents h s @ [x]"
    and "sliceOff s' = 0"
    and "sliceLen s' \<le> length (arrays h' (sliceArray s'))"
    and "sliceCap s' = length (arrays h' (sliceArray s'))"
    and "\<forall>a. a \<noteq> sliceArray s' \<longrightarrow> arrays h' a = arrays h a"
    and "(sliceArray s' = sliceArray s \<and> sliceLen s < sliceCap s \<and> nextAddr h' = nextAddr h)
       \<or> (sliceArray s' = nextAddr h \<and> nextAddr h' = nextAddr h + 1)"
proof -
  show "contents h' s' = contents h s @ [x]"
  proof (cases "sliceLen s < sliceCap s")
    case True
    with cap have "sliceLen s < length (arrays h (sliceArray s))" by simp
    then have "take (Suc (sliceLen s)) ((arrays h (sliceArray s))[sliceLen s := x])
        = take (sliceLen s) (arrays h (sliceArray s)) @ [x]"
      by (simp add: take_Suc_conv_app_nth)
    with True ap off show ?thesis by (auto simp: appendTx_def contents_def)
  next
    case False
    from len off have "length (contents h s) = sliceLen s" by (simp add: contents_def)
    with False ap show ?thesis by (auto simp: appendTx_def Let_def contents_def)
  qed
  from len off have l: "length (contents h s) = sliceLen s" by (simp add: contents_def)
  from ap off show "sliceOff s' = 0"
    by (auto simp: appendTx_def Let_def split: if_splits)
  from ap cap l show "sliceLen s' \<le> length (arrays h' (sliceArray s'))"
    by (auto simp: appendTx_def Let_def split: if_splits)
  from ap cap l show "sliceCap s' = length (arrays h' (sliceArray s'))"
    by (auto simp: appendTx_def Let_def split: if_splits)
  from ap show "\<forall>a. a \<noteq> sliceArray s' \<longrightarrow> arrays h' a = arrays h a"
    by (auto simp: appendTx_def Let_def split: if_splits)
  from ap show "(sliceArray s' = sliceArray s \<and> sliceLen s < sliceCap s \<and> nextAddr h' = nextAddr h)
       \<or> (sliceArray s' = nextAddr h \<and> nextAddr h' = nextAddr h + 1)"
    by (auto simp: appendTx_def Let_def split: if_splits)
qed

lemma partitioned_step:
  assumes P: "partitioned n h m pre" and n: "n \<le> nextAddr h"
    and ap: "appendTx grow h (lookupSlice m (UserID tx)) tx = (h', s')"
  shows "partitioned n h' (assign (UserID tx) s' m) (pre @ [tx])"
proof -
  let ?u = "UserID tx"
  let ?s = "lookupSlice m ?u"
  let ?m = "assign ?u s' m"
  from P have K: "distinct (map fst m)"
    and G: "\<And>u s. map_of m u = Some s \<Longrightarrow>
           n \<le> sliceArray s \<and> sliceArray s < nextAddr h \<and> sliceOff s = 0
           \<and> sliceLen s \<le> length (arrays h (sliceArray s))
           \<and> sliceCap s = length (arrays h (sliceArray s))"
    and I: "\<And>u1 u2 s1 s2. map_of m u1 = Some s1 \<Longrightarrow> map_of m u2 = Some s2
           \<Longrightarrow> sliceArray s1 = sliceArray s2 \<Longrightarrow> u1 = u2"
    and V: "\<And>u. contents h (lookupSlice m u) = userTxs u pre"
    unfolding partitioned_def by blast+
  have sprops: "sliceOff ?s = 0 \<and> sliceLen ?s \<le> length (arrays h (sliceArray ?s))
      \<and> (sliceLen ?s < sliceCap ?s \<longrightarrow> sliceCap ?s = length (arrays h (sliceArray ?s))
            \<and> map_of m ?u = Some ?s)"
  proof (cases "map_of m ?u")
    case None
    then show ?thesis by (simp add: lookupSlice_def nilSlice_def)
  next
    case (Some s)
    with G [OF Some] show ?thesis by (simp add: lookupSlice_def)
  qed
  from sprops have off: "sliceOff ?s = 0" and len: "sliceLen ?s \<le> length (arrays h (sliceArray ?s))"
    and cap: "sliceLen ?s < sliceCap ?s \<Longrightarrow> sliceCap ?s = length (arrays h (sliceArray ?s))"
    and inm: "sliceLen ?s < sliceCap ?s \<Longrightarrow> map_of m ?u = Some ?s"
    by simp_all
  note r = appendTx_result [OF ap off len cap]
  have mo: "map_of ?m = (map_of m)(?u \<mapsto> s')" by (rule map_of_assign)
  have other: "sliceArray s2 \<noteq> sliceArray s'" if "map_of m u2 = Some s2" "u2 \<noteq> ?u" for u2 s2
  proof
    assume eq: "sliceArray s2 = sliceArray s'"
    from r(6) show False
    proof
      assume a: "sliceArray s' = sliceArray ?s \<and> sliceLen ?s < sliceCap ?s \<and> nextAddr h' = nextAddr h"
      then have "map_of m ?u = Some ?s" by (intro inm) simp
      from I [OF that(1) this] eq a that(2) show False by simp
    next
      assume "sliceArray s' = nextAddr h \<and> nextAddr h' = nextAddr h + 1"
      with G [OF that(1)] eq show False by simp
    qed
  qed
  have next_mono: "nextAddr h \<le> nextAddr h'" using r(6) by auto
  have s'range: "n \<le> sliceArray s' \<and> sliceArray s' < nextAddr h'"
    using r(6)
  proof
    assume a: "sliceArray s' = sliceArray ?s \<and> sliceLen ?s < sliceCap ?s \<and> nextAddr h' = nextAddr h"
    then have "map_of m ?u = Some ?s" by (intro inm) simp
    from G [OF this] a show ?thesis by simp
  next
    assume "sliceArray s' = nextAddr h \<and> nextAddr h' = nextAddr h + 1"
    with n show ?thesis by simp
  qed
  have G': "n \<le> sliceArray s \<and> sliceArray s < nextAddr h' \<and> sliceOff s = 0
           \<and> sliceLen s \<le> length (arrays h' (sliceArray s))
           \<and> sliceCap s = length (arrays h' (sliceArray s))"
    if "map_of ?m u = Some s" for u s
  proof (cases "u = ?u")
    case True
    with that mo have "s = s'" by simp
    with r(2,3,4) s'range show ?thesis by simp
  next
    case False
    with that mo have ms: "map_of m u = Some s" by simp
    from other [OF ms False] r(5) have "arrays h' (sliceArray s) = arrays h (sliceArray s)" by simp
    with G [OF ms] next_mono show ?thesis by simp
  qed
  have I': "u1 = u2"
    if "map_of ?m u1 = Some s1" "map_of ?m u2 = Some s2" "sliceArray s1 = sliceArray s2"
    for u1 u2 s1 s2
  proof (cases "u1 = ?u"; cases "u2 = ?u")
    assume "u1 = ?u" "u2 = ?u"
    then show ?thesis by simp
  next
    assume a: "u1 = ?u" "u2 \<noteq> ?u"
    with that mo have "s1 = s'" "map_of m u2 = Some s2" by simp_all
    with other [of u2 s2] a that(3) show ?thesis by simp
  next
    assume a: "u1 \<noteq> ?u" "u2 = ?u"
    with that mo have "s2 = s'" "map_of m u1 = Some s1" by simp_all
    with other [of u1 s1] a that(3) show ?thesis by simp
  next
    assume a: "u1 \<noteq> ?u" "u2 \<noteq> ?u"
    with that mo have "map_of m u1 = Some s1" "map_of m u2 = Some s2" by simp_all
    with I that(3) show ?thesis by blast
  qed
  have V': "contents h' (lookupSlice ?m u) = userTxs u (pre @ [tx])" for u
  proof (cases "u = ?u")
    case True
    with mo have "lookupSlice ?m u = s'" by (simp add: lookupSlice_def)
    with r(1) V [of ?u] True show ?thesis by (simp add: userTxs_def)
  next
    case False
    with mo have same: "lookupSlice ?m u = lookupSlice m u" by (simp add: lookupSlice_def)
    have "contents h' (lookupSlice m u) = contents h (lookupSlice m u)"
    proof (cases "map_of m u")
      case None
      then show ?thesis by (simp add: lookupSlice_def contents_nilSlice)
    next
      case (Some s)
      from other [OF Some False] r(5) have "arrays h' (sliceArray s) = arrays h (sliceArray s)"
        by simp
      with Some show ?thesis by (simp add: lookupSlice_def contents_def)
    qed
    with same V [of u] False show ?thesis by (simp add: userTxs_def)
  qed
  from K have "distinct (map fst ?m)" by (rule distinct_assign)
  with G' I' V' show ?thesis unfolding partitioned_def by blast
qed

lemma partitioned_inplace:
  assumes "partitioned n h m pre" and "sliceLen (lookupSlice m u) < sliceCap (lookupSlice m u)"
  shows "n \<le> sliceArray (lookupSlice m u)"
proof (cases "map_of m u")
  case None
  with assms(2) show ?thesis by (simp add: lookupSlice_def nilSlice_def)
next
  case (Some s)
  with assms(1) show ?thesis by (simp add: lookupSlice_def partitioned_def)
qed

lemma partitionLoop_partitioned:
  assumes "partitionLoop grow input i h m = (h', m')"
    and "partitioned n h m (take i xs)"
    and "n \<le> nextAddr h"
    and "sliceArray input < n"
    and "\<forall>j. j < sliceLen input \<longrightarrow> arrays h (sliceArray input) ! (sliceOff input + j) = xs ! j"
    and "length xs = sliceLen input"
  shows "partitioned n h' m' xs"
  using assms
proof (induction grow input i h m rule: partitionLoop.induct)
  case (1 grow input i h m)
  show ?case
  proof (cases "i < sliceLen input")
    case False
    with "1.prems" show ?thesis by (simp add: partitionLoop.simps)
  next
    case True
    define tx where "tx = arrays h (sliceArray input) ! (sliceOff input + i)"
    obtain h1 s1 where ap: "appendTx grow h (lookupSlice m (UserID tx)) tx = (h1, s1)"
      by (cases "appendTx grow h (lookupSlice m (UserID tx)) tx")
    then have eq: "(h1, s1) = appendTx grow h (lookupSlice m (UserID tx)) tx" by simp
    from True "1.prems"(1) ap
    have rec: "partitionLoop grow input (i + 1) h1 (assign (UserID tx) s1 m) = (h', m')"
      by (subst (asm) partitionLoop.simps) (simp add: tx_def Let_def)
    from True "1.prems"(5) have txi: "tx = xs ! i" by (simp add: tx_def)
    from True "1.prems"(6) have "take (i + 1) xs = take i xs @ [tx]"
      by (simp add: take_Suc_conv_app_nth txi)
    with partitioned_step [OF "1.prems"(2,3) ap]
    have P1: "partitioned n h1 (assign (UserID tx) s1 m) (take (i + 1) xs)" by simp
    from appendTx_frame [OF ap partitioned_inplace [OF "1.prems"(2)] "1.prems"(3)]
    have f: "n \<le> nextAddr h1" "\<forall>a<n. arrays h1 a = arrays h a" by simp_all
    with "1.prems"(4) have "arrays h1 (sliceArray input) = arrays h (sliceArray input)" by simp
    with "1.prems"(5)
    have rd: "\<forall>j. j < sliceLen input \<longrightarrow> arrays h1 (sliceArray input) ! (sliceOff input + j) = xs ! j"
      by simp
    from "1.IH" [OF True tx_def refl eq rec P1 f(1) "1.prems"(4) rd "1.prems"(6)]
    show ?thesis .
  qed
qed

lemma partitioned_empty: "partitioned n h [] []"
  by (simp add: partitioned_def lookupSlice_def contents_nilSlice userTxs_def)

lemma contents_nth:
  assumes "allocated h s" and "j < sliceLen s"
  shows "arrays h (sliceArray s) ! (sliceOff s + j) = contents h s ! j"
  using assms by (simp add: allocated_def contents_def)

lemma length_contents: "allocated h s \<Longrightarrow> length (contents h s) = sliceLen s"
  by (auto simp: allocated_def contents_def)

lemma partition_correct:
  assumes al: "allocated h input" and p: "partitionLoop grow input 0 h [] = (h', m)"
  shows "partitioned (nextAddr h) h' m (contents h input)"
proof -
  from al have "sliceArray input < nextAddr h" by (simp add: allocated_def)
  moreover from al
  have "\<forall>j. j < sliceLen input \<longrightarrow> arrays h (sliceArray input) ! (sliceOff input + j) = contents h input ! j"
    by (simp add: contents_nth)
  moreover have "partitioned (nextAddr h) h [] (take 0 (contents h input))"
    by (simp add: partitioned_empty)
  ultimately show ?thesis
    using partitionLoop_partitioned [OF p, of "nextAddr h" "contents h input"] length_contents [OF al]
    by simp
qed

lemma sortSliceH_contents:
  assumes "sliceOff s = 0" and "sliceLen s \<le> length (arrays h (sliceArray s))"
  shows "contents (sortSliceH h s) s = sortSlice (contents h s)"
proof -
  from assms have "length (sortSlice (contents h s)) = sliceLen s"
    by (simp add: sortSlice_def contents_def)
  with assms(1) show ?thesis by (simp add: sortSliceH_def contents_def)
qed

lemma sortSliceH_other:
  "sliceArray s' \<noteq> sliceArray s \<Longrightarrow>
     arrays (sortSliceH h s) (sliceArray s') = arrays h (sliceArray s')"
  by (simp add: sortSliceH_def)

lemma flagUsersH_flagUsers:
  assumes "distinct (map (\<lambda>e. sliceArray (snd e)) jobs)"
    and "\<forall>(u, s)\<in>set jobs. sliceOff s = 0 \<and> sliceLen s \<le> length (arrays h (sliceArray s))"
  shows "snd (flagUsersH periods jobs (h, flagged))
     = flagUsers periods (map (\<lambda>(u, s). (u, contents h s)) jobs) flagged"
  using assms
proof (induction jobs arbitrary: h flagged)
  case Nil
  then show ?case by (simp add: flagUsersH_def flagUsers_def)
next
  case (Cons job jobs)
  obtain u s where job: "job = (u, s)" by (cases job)
  let ?h = "sortSliceH h s"
  let ?F = "if sortAndCheck periods (contents h s) then insert u flagged else flagged"
  from Cons.prems(2) have s: "sliceOff s = 0" "sliceLen s \<le> length (arrays h (sliceArray s))"
    by (simp_all add: job)
  from sortSliceH_contents [OF s]
  have chk: "hasViolatedVelocityPeriods periods (contents ?h s) = sortAndCheck periods (contents h s)"
    by (simp add: sortAndCheck_def)
  have step: "flagUsersH periods (job # jobs) (h, flagged) = flagUsersH periods jobs (?h, ?F)"
    by (simp add: flagUsersH_def job processUserH_def Let_def chk)
  have same: "arrays ?h (sliceArray s') = arrays h (sliceArray s')" if "(u', s') \<in> set jobs" for u' s'
  proof -
    from Cons.prems(1) that have "sliceArray s' \<noteq> sliceArray s" by (force simp: job)
    then show ?thesis by (rule sortSliceH_other)
  qed
  from Cons.prems(1) have d: "distinct (map (\<lambda>e. sliceArray (snd e)) jobs)" by simp
  have g: "\<forall>(u, s)\<in>set jobs. sliceOff s = 0 \<and> sliceLen s \<le> length (arrays ?h (sliceArray s))"
    using Cons.prems(2) same by auto
  have "map (\<lambda>(u, s). (u, contents ?h s)) jobs = map (\<lambda>(u, s). (u, contents h s)) jobs"
    using same by (auto simp: contents_def)
  with Cons.IH [OF d g, of ?F] step show ?case
    by (simp add: job flagUsers_def)
qed

lemma partitioned_entries:
  assumes "partitioned n h m xs"
  shows "distinct (map (\<lambda>e. sliceArray (snd e)) m)"
    and "\<forall>(u, s)\<in>set m. sliceOff s = 0 \<and> sliceLen s \<le> length (arrays h (sliceArray s))"
    and "\<forall>(u, s)\<in>set m. contents h s = userTxs u xs"
    and "\<forall>u. u \<notin> fst ` set m \<longrightarrow> userTxs u xs = []"
proof -
  from assms have K: "distinct (map fst m)" by (simp add: partitioned_def)
  then have mo: "map_of m u = Some s \<longleftrightarrow> (u, s) \<in> set m" for u s by simp
  from K have dm: "distinct m" by (rule distinct_map [THEN iffD1, THEN conjunct1])
  have "inj_on (\<lambda>e. sliceArray (snd e)) (set m)"
  proof (rule inj_onI)
    fix x y assume x: "x \<in> set m" and y: "y \<in> set m"
      and eq: "sliceArray (snd x) = sliceArray (snd y)"
    obtain u1 s1 u2 s2 where xy: "x = (u1, s1)" "y = (u2, s2)" by (cases x, cases y)
    with x y have m1: "map_of m u1 = Some s1" and m2: "map_of m u2 = Some s2" by (simp_all add: mo)
    with assms eq xy have "u1 = u2" unfolding partitioned_def by auto
    with m1 m2 xy show "x = y" by simp
  qed
  with dm show "distinct (map (\<lambda>e. sliceArray (snd e)) m)" by (simp add: distinct_map)
  from assms show "\<forall>(u, s)\<in>set m. sliceOff s = 0 \<and> sliceLen s \<le> length (arrays h (sliceArray s))"
    unfolding partitioned_def using mo by blast
  show "\<forall>(u, s)\<in>set m. contents h s = userTxs u xs"
  proof (clarify)
    fix u s assume "(u, s) \<in> set m"
    then have "lookupSlice m u = s" by (simp add: lookupSlice_def mo [symmetric])
    with assms show "contents h s = userTxs u xs" unfolding partitioned_def by auto
  qed
  show "\<forall>u. u \<notin> fst ` set m \<longrightarrow> userTxs u xs = []"
  proof (intro allI impI)
    fix u assume "u \<notin> fst ` set m"
    then have "map_of m u = None" by (simp add: map_of_eq_None_iff)
    then have "lookupSlice m u = nilSlice" by (simp add: lookupSlice_def)
    with assms have "contents h nilSlice = userTxs u xs" unfolding partitioned_def by metis
    then show "userTxs u xs = []" by (simp add: contents_nilSlice)
  qed
qed

lemma ProcessH_Process:
  assumes "allocated h input"
  shows "snd (ProcessH grow periods h input) = Process periods (contents h input)"
proof -
  let ?xs = "contents h input"
  obtain h1 m where p: "partitionLoop grow input 0 h [] = (h1, m)"
    by (cases "partitionLoop grow input 0 h []")
  note e = partitioned_entries [OF partition_correct [OF assms p]]
  from p have "snd (ProcessH grow periods h input) = snd (flagUsersH periods m (h1, {}))"
    by (simp add: ProcessH_def)
  also have "\<dots> = flagUsers periods (map (\<lambda>(u, s). (u, contents h1 s)) m) {}"
    using e(1,2) by (rule flagUsersH_flagUsers)
  also have "\<dots> = {u. \<exists>txs. (u, txs) \<in> set (map (\<lambda>(u, s). (u, contents h1 s)) m)
      \<and> sortAndCheck periods txs}"
    by (simp add: flagUsers_set)
  also have "\<dots> = {u. sortAndCheck periods (userTxs u ?xs)}"
  proof (intro set_eqI iffI)
    fix u assume "u \<in> {u. \<exists>txs. (u, txs) \<in> set (map (\<lambda>(u, s). (u, contents h1 s)) m)
      \<and> sortAndCheck periods txs}"
    then obtain s where "(u, s) \<in> set m" "sortAndCheck periods (contents h1 s)" by auto
    with e(3) show "u \<in> {u. sortAndCheck periods (userTxs u ?xs)}" by auto
  next
    fix u assume "u \<in> {u. sortAndCheck periods (userTxs u ?xs)}"
    then have c: "sortAndCheck periods (userTxs u ?xs)" by simp
    with sortAndCheck_Nil [of periods] have "userTxs u ?xs \<noteq> []" by auto
    with e(4) obtain s where s: "(u, s) \<in> set m" by fastforce
    with e(3) c have "sortAndCheck periods (contents h1 s)" by auto
    with s show "u \<in> {u. \<exists>txs. (u, txs) \<in> set (map (\<lambda>(u, s). (u, contents h1 s)) m)
      \<and> sortAndCheck periods txs}" by force
  qed
  also have "\<dots> = Process periods ?xs" by (simp add: Process_sortAndCheck)
  finally show ?thesis .
qed

section \<open>The claims\<close>

text \<open>
  Claim C1.  For every transaction list, every period list and every positive worker
  count, whenever the worker pool or the pipeline returns under a schedule in which the
  context is not cancelled, it returns the flagged set of the sequential \<open>Process\<close>.
  Every such schedule has bounded length and can be continued to one under which the
  evaluator returns that set.
\<close>

theorem C1_evaluators_agree:
  assumes "0 < workerCount"
  shows "(\<forall>es F. Cancel \<notin> set es
            \<longrightarrow> WorkerProcess (NewWorkerVelocityProcessor periods workerCount) es transactions = Some F
            \<longrightarrow> F = Process periods transactions)
    \<and> (\<forall>es F. Cancel \<notin> set es
            \<longrightarrow> ConcurrentProcess (NewConcurrentVelocityProcessor periods workerCount) es transactions = Some F
            \<longrightarrow> F = Process periods transactions)
    \<and> (\<forall>es t. Cancel \<notin> set es
            \<longrightarrow> run (poolConfig (NewWorkerVelocityProcessor periods workerCount) transactions) es
                  (poolStart (NewWorkerVelocityProcessor periods workerCount) transactions) = Some t
            \<longrightarrow> length es \<le> stepsLeft (poolStart (NewWorkerVelocityProcessor periods workerCount) transactions)
              \<and> (\<exists>es'. Cancel \<notin> set es'
                    \<and> WorkerProcess (NewWorkerVelocityProcessor periods workerCount) (es @ es') transactions
                        = Some (Process periods transactions)))
    \<and> (\<forall>es t. Cancel \<notin> set es
            \<longrightarrow> run (pipelineConfig (NewConcurrentVelocityProcessor periods workerCount)) es
                  (pipelineStart (NewConcurrentVelocityProcessor periods workerCount) transactions) = Some t
            \<longrightarrow> length es \<le> stepsLeft (pipelineStart (NewConcurrentVelocityProcessor periods workerCount) transactions)
              \<and> (\<exists>es'. Cancel \<notin> set es'
                    \<and> ConcurrentProcess (NewConcurrentVelocityProcessor periods workerCount) (es @ es') transactions
                        = Some (Process periods transactions)))"
proof -
  let ?w = "NewWorkerVelocityProcessor periods workerCount"
  let ?p = "NewConcurrentVelocityProcessor periods workerCount"
  from assms have nw: "0 < PoolWorkerCount ?w" and np: "0 < PipelineWorkerCount ?p"
    by (simp_all add: NewWorker_simps NewConcurrent_simps)
  have pw: "PoolPeriods ?w = periods" and pp: "PipelinePeriods ?p = periods"
    by (simp_all add: NewWorker_simps NewConcurrent_simps)
  have a: "F = Process periods transactions"
    if "Cancel \<notin> set es" "WorkerProcess ?w es transactions = Some F" for es F
    using pool_exact [OF that(2,1) nw] by (simp add: pw)
  have b: "F = Process periods transactions"
    if "Cancel \<notin> set es" "ConcurrentProcess ?p es transactions = Some F" for es F
    using pipeline_exact [OF that(2,1) np] by (simp add: pp)
  have c: "length es \<le> stepsLeft (poolStart ?w transactions)
      \<and> (\<exists>es'. Cancel \<notin> set es'
            \<and> WorkerProcess ?w (es @ es') transactions = Some (Process periods transactions))"
    if "Cancel \<notin> set es" "run (poolConfig ?w transactions) es (poolStart ?w transactions) = Some t"
    for es t
    using pool_finishes [OF that(2,1) nw] stepsLeft_run [OF that(2)] by (simp add: pw)
  have d: "length es \<le> stepsLeft (pipelineStart ?p transactions)
      \<and> (\<exists>es'. Cancel \<notin> set es'
            \<and> ConcurrentProcess ?p (es @ es') transactions = Some (Process periods transactions))"
    if "Cancel \<notin> set es" "run (pipelineConfig ?p) es (pipelineStart ?p transactions) = Some t"
    for es t
    using pipeline_finishes [OF that(2,1) np] stepsLeft_run [OF that(2)] by (simp add: pp)
  from a b c d show ?thesis by blast
qed

theorem C1_evaluators_agree_witness:
  "(0::int) < 2
   \<and> WorkerProcess (NewWorkerVelocityProcessor [NewVelocityPeriod week 2] 2) schedule1
        [txAt 1 0, txAt 1 Hour, txAt 1 (2 * Hour)] = Some {1}
   \<and> ConcurrentProcess (NewConcurrentVelocityProcessor [NewVelocityPeriod week 2] 2) schedule1
        [txAt 1 0, txAt 1 Hour, txAt 1 (2 * Hour)] = Some {1}
   \<and> Process [NewVelocityPeriod week 2] [txAt 1 0, txAt 1 Hour, txAt 1 (2 * Hour)] = {1}"
proof -
  have pos: "(0::int) < 2" by simp
  have nc: "Cancel \<notin> set schedule1" by (simp add: schedule1_def)
  have w: "WorkerProcess (NewWorkerVelocityProcessor [NewVelocityPeriod week 2] 2) schedule1
        [txAt 1 0, txAt 1 Hour, txAt 1 (2 * Hour)] = Some {1}"
    by code_simp
  have p: "ConcurrentProcess (NewConcurrentVelocityProcessor [NewVelocityPeriod week 2] 2) schedule1
        [txAt 1 0, txAt 1 Hour, txAt 1 (2 * Hour)] = Some {1}"
    by code_simp
  from C1_evaluators_agree [OF pos, of "[NewVelocityPeriod week 2]"
      "[txAt 1 0, txAt 1 Hour, txAt 1 (2 * Hour)]"] nc w
  have "{1} = Process [NewVelocityPeriod week 2] [txAt 1 0, txAt 1 Hour, txAt 1 (2 * Hour)]"
    by blast
  with pos w p show ?thesis by simp
qed

text \<open>
  Claim C2.  The worker pool replaces a zero or negative worker count by 4.  The pipeline
  keeps the count it is given: with a zero or negative count it starts no worker, and
  \<open>Process\<close> returns the empty set under every schedule, whatever the transactions.
\<close>

theorem C2_pipeline_keeps_worker_count:
  assumes "workerCount \<le> 0"
  shows "NewWorkerVelocityProcessor periods workerCount = NewWorkerVelocityProcessor periods 4
    \<and> PipelineWorkerCount (NewConcurrentVelocityProcessor periods workerCount) = workerCount
    \<and> (\<forall>es F. ConcurrentProcess (NewConcurrentVelocityProcessor periods workerCount) es transactions = Some F
          \<longrightarrow> F = {})
    \<and> ConcurrentProcess (NewConcurrentVelocityProcessor periods workerCount)
          [CloseResults, Aggregate] transactions = Some {}"
proof -
  let ?p = "NewConcurrentVelocityProcessor periods workerCount"
  from assms have n: "PipelineWorkerCount ?p \<le> 0" by (simp add: NewConcurrent_simps)
  from assms have "NewWorkerVelocityProcessor periods workerCount = NewWorkerVelocityProcessor periods 4"
    by (simp add: NewWorkerVelocityProcessor_def)
  moreover have "F = {}" if "ConcurrentProcess ?p es transactions = Some F" for es F
    using that n by (rule pipeline_no_workers)
  moreover note pipeline_no_workers_returns [OF n, of transactions]
  ultimately show ?thesis by (simp add: NewConcurrent_simps)
qed

theorem C2_pipeline_keeps_worker_count_witness:
  "(0::int) \<le> 0
   \<and> ConcurrentProcess (NewConcurrentVelocityProcessor [NewVelocityPeriod week 2] 0)
        [CloseResults, Aggregate] [txAt 1 0, txAt 1 Hour, txAt 1 (2 * Hour)] = Some {}
   \<and> ConcurrentProcess (NewConcurrentVelocityProcessor [NewVelocityPeriod week 2] 4)
        schedule4 [txAt 1 0, txAt 1 Hour, txAt 1 (2 * Hour)] = Some {1}
   \<and> WorkerProcess (NewWorkerVelocityProcessor [NewVelocityPeriod week 2] 0)
        schedule4 [txAt 1 0, txAt 1 Hour, txAt 1 (2 * Hour)] = Some {1}
   \<and> Process [NewVelocityPeriod week 2] [txAt 1 0, txAt 1 Hour, txAt 1 (2 * Hour)] = {1}"
proof -
  have le: "(0::int) \<le> 0" by simp
  have four: "ConcurrentProcess (NewConcurrentVelocityProcessor [NewVelocityPeriod week 2] 4)
        schedule4 [txAt 1 0, txAt 1 Hour, txAt 1 (2 * Hour)] = Some {1}"
    by code_simp
  have pool: "WorkerProcess (NewWorkerVelocityProcessor [NewVelocityPeriod week 2] 0)
        schedule4 [txAt 1 0, txAt 1 Hour, txAt 1 (2 * Hour)] = Some {1}"
    by code_simp
  have seq: "Process [NewVelocityPeriod week 2] [txAt 1 0, txAt 1 Hour, txAt 1 (2 * Hour)] = {1}"
    by code_simp
  from C2_pipeline_keeps_worker_count [OF le, of "[NewVelocityPeriod week 2]"
      "[txAt 1 0, txAt 1 Hour, txAt 1 (2 * Hour)]"] le four pool seq
  show ?thesis by simp
qed

text \<open>
  Claim C3, with spans taken as differences of timestamps.  For periods whose duration is
  below the largest \<^verbatim>\<open>int64\<close> duration: a user none of whose groups of transactions
  within a span of at most a period's duration has more members than that period's
  threshold is not flagged, so exactly \<open>threshold\<close> transactions within the duration do
  not flag.  For every period: a user with at least one transaction in the batch and
  \<open>threshold + 1\<close> transactions within a span of at most the period's duration is flagged.
  The comparison of the window size with the threshold is strict.
\<close>

theorem C3_threshold_boundary:
  "((\<forall>p\<in>set periods. Duration p < maxDuration
        \<and> (\<forall>w. mset w \<subseteq># mset (userTxs u transactions) \<and> withinSpan (Duration p) w
              \<longrightarrow> int (length w) \<le> Threshold p))
      \<longrightarrow> u \<notin> Process periods transactions)
   \<and> (userTxs u transactions \<noteq> []
       \<and> (\<exists>p\<in>set periods. \<exists>w. mset w \<subseteq># mset (userTxs u transactions) \<and> withinSpan (Duration p) w
            \<and> int (length w) = Threshold p + 1)
      \<longrightarrow> u \<in> Process periods transactions)"
proof (intro conjI impI)
  assume sparse: "\<forall>p\<in>set periods. Duration p < maxDuration
      \<and> (\<forall>w. mset w \<subseteq># mset (userTxs u transactions) \<and> withinSpan (Duration p) w
            \<longrightarrow> int (length w) \<le> Threshold p)"
  show "u \<notin> Process periods transactions"
  proof
    assume "u \<in> Process periods transactions"
    then obtain p w where p: "p \<in> set periods" and w: "mset w \<subseteq># mset (userTxs u transactions)"
        "spanBySub (Duration p) w" "Threshold p < int (length w)"
      unfolding Process_windows by blast
    from sparse p have d: "Duration p < maxDuration" by blast
    from spanBySub_withinSpan [OF d w(2)] have "withinSpan (Duration p) w" .
    with sparse p w(1) have "int (length w) \<le> Threshold p" by blast
    with w(3) show False by simp
  qed
next
  assume "userTxs u transactions \<noteq> []
       \<and> (\<exists>p\<in>set periods. \<exists>w. mset w \<subseteq># mset (userTxs u transactions) \<and> withinSpan (Duration p) w
            \<and> int (length w) = Threshold p + 1)"
  then obtain p w where ne: "userTxs u transactions \<noteq> []" and p: "p \<in> set periods"
      and w: "mset w \<subseteq># mset (userTxs u transactions)" "withinSpan (Duration p) w"
      "int (length w) = Threshold p + 1"
    by blast
  from w(2) have "spanBySub (Duration p) w" by (rule withinSpan_spanBySub)
  moreover from w(3) have "Threshold p < int (length w)" by simp
  ultimately show "u \<in> Process periods transactions"
    unfolding Process_windows using ne p w(1) by blast
qed

theorem C3_threshold_boundary_witness:
  "week < maxDuration
   \<and> withinSpan week [txAt 1 0, txAt 1 Hour, txAt 1 (2 * Hour)]
   \<and> int (length [txAt 1 0, txAt 1 Hour, txAt 1 (2 * Hour)]) = 3
   \<and> 1 \<notin> Process [NewVelocityPeriod week 3] [txAt 1 0, txAt 1 Hour, txAt 1 (2 * Hour)]
   \<and> userTxs 1 [txAt 1 0, txAt 1 Hour, txAt 1 (2 * Hour), txAt 1 (3 * Hour)] \<noteq> []
   \<and> withinSpan week [txAt 1 0, txAt 1 Hour, txAt 1 (2 * Hour), txAt 1 (3 * Hour)]
   \<and> int (length [txAt 1 0, txAt 1 Hour, txAt 1 (2 * Hour), txAt 1 (3 * Hour)]) = 3 + 1
   \<and> 1 \<in> Process [NewVelocityPeriod week 3]
         [txAt 1 0, txAt 1 Hour, txAt 1 (2 * Hour), txAt 1 (3 * Hour)]"
proof -
  let ?three = "[txAt 1 0, txAt 1 Hour, txAt 1 (2 * Hour)]"
  let ?four = "[txAt 1 0, txAt 1 Hour, txAt 1 (2 * Hour), txAt 1 (3 * Hour)]"
  have u3: "userTxs 1 ?three = ?three" and u4: "userTxs 1 ?four = ?four"
    by (simp_all add: userTxs_def txAt_def)
  have wk: "week < maxDuration" by (simp add: week_def Hour_def maxDuration_def)
  have sparse: "\<forall>p\<in>set [NewVelocityPeriod week 3]. Duration p < maxDuration
        \<and> (\<forall>w. mset w \<subseteq># mset (userTxs 1 ?three) \<and> withinSpan (Duration p) w
              \<longrightarrow> int (length w) \<le> Threshold p)"
  proof (intro ballI conjI allI impI)
    fix p assume "p \<in> set [NewVelocityPeriod week 3]"
    with wk show "Duration p < maxDuration" by (simp add: NewVelocityPeriod_def)
  next
    fix p w assume "p \<in> set [NewVelocityPeriod week 3]"
      and "mset w \<subseteq># mset (userTxs 1 ?three) \<and> withinSpan (Duration p) w"
    then have p: "Threshold p = 3" and sub: "mset w \<subseteq># mset ?three"
      by (simp_all add: NewVelocityPeriod_def u3)
    from sub have "size (mset w) \<le> size (mset ?three)" by (rule size_mset_mono)
    with p show "int (length w) \<le> Threshold p" by simp
  qed
  have span3: "withinSpan week ?three"
    by (simp add: withinSpan_def txAt_def week_def Hour_def)
  have span4: "withinSpan week ?four"
    by (simp add: withinSpan_def txAt_def week_def Hour_def)
  have ne: "userTxs 1 ?four \<noteq> []" by (simp add: u4)
  have dense4: "\<exists>p\<in>set [NewVelocityPeriod week 3]. \<exists>w.
        mset w \<subseteq># mset (userTxs 1 ?four) \<and> withinSpan (Duration p) w
          \<and> int (length w) = Threshold p + 1"
    using span4 by (simp add: u4 NewVelocityPeriod_def) (intro exI [of _ ?four], simp)
  from C3_threshold_boundary [of "[NewVelocityPeriod week 3]" 1 ?three] sparse
  have "1 \<notin> Process [NewVelocityPeriod week 3] ?three" by blast
  moreover from C3_threshold_boundary [of "[NewVelocityPeriod week 3]" 1 ?four] ne dense4
  have "1 \<in> Process [NewVelocityPeriod week 3] ?four" by blast
  ultimately show ?thesis using wk span3 span4 ne by simp
qed

text \<open>
  Both restrictions are needed.  With the largest \<^verbatim>\<open>int64\<close> as duration and threshold 1,
  two transactions of one user that lie \<open>2 ^ 63 + 5\<close> nanoseconds apart are flagged, since
  \<^verbatim>\<open>Sub\<close> saturates at the duration, although no span of that length holds both.  With
  threshold \<open>- 1\<close>, a user without a transaction in the batch has \<open>threshold + 1 = 0\<close>
  transactions within any span and is not flagged.
\<close>

theorem C3_real_span_counterexample:
  "1 \<in> Process [NewVelocityPeriod maxDuration 1] [txAt 1 0, txAt 1 (2 ^ 63 + 5)]
   \<and> \<not> withinSpan maxDuration [txAt 1 0, txAt 1 (2 ^ 63 + 5)]
   \<and> \<not> ((\<forall>p\<in>set [NewVelocityPeriod maxDuration 1]. \<forall>w.
            mset w \<subseteq># mset (userTxs 1 [txAt 1 0, txAt 1 (2 ^ 63 + 5)])
              \<and> withinSpan (Duration p) w \<longrightarrow> int (length w) \<le> Threshold p)
          \<longrightarrow> 1 \<notin> Process [NewVelocityPeriod maxDuration 1] [txAt 1 0, txAt 1 (2 ^ 63 + 5)])
   \<and> userTxs 2 [txAt 1 0, txAt 1 Hour] = []
   \<and> 2 \<notin> Process [NewVelocityPeriod week (- 1)] [txAt 1 0, txAt 1 Hour]
   \<and> \<not> ((\<exists>p\<in>set [NewVelocityPeriod week (- 1)]. \<exists>w.
            mset w \<subseteq># mset (userTxs 2 [txAt 1 0, txAt 1 Hour])
              \<and> withinSpan (Duration p) w \<and> int (length w) = Threshold p + 1)
          \<longrightarrow> 2 \<in> Process [NewVelocityPeriod week (- 1)] [txAt 1 0, txAt 1 Hour])"
proof -
  let ?far = "[txAt 1 0, txAt 1 (2 ^ 63 + 5)]"
  let ?near = "[txAt 1 0, txAt 1 Hour]"
  have flagged: "1 \<in> Process [NewVelocityPeriod maxDuration 1] ?far"
    by code_simp
  have apart: "\<not> withinSpan maxDuration ?far"
    by (simp add: withinSpan_def txAt_def maxDuration_def)
  have u: "userTxs 1 ?far = ?far" by (simp add: userTxs_def txAt_def)
  have sparse: "\<forall>p\<in>set [NewVelocityPeriod maxDuration 1]. \<forall>w.
      mset w \<subseteq># mset (userTxs 1 ?far) \<and> withinSpan (Duration p) w
        \<longrightarrow> int (length w) \<le> Threshold p"
  proof (intro ballI allI impI)
    fix p w assume "p \<in> set [NewVelocityPeriod maxDuration 1]"
      and "mset w \<subseteq># mset (userTxs 1 ?far) \<and> withinSpan (Duration p) w"
    then have p: "p = NewVelocityPeriod maxDuration 1"
      and sub0: "mset w \<subseteq># mset (userTxs 1 ?far)" and span0: "withinSpan (Duration p) w"
      by simp_all
    from p have p: "Threshold p = 1" and dp: "Duration p = maxDuration"
      by (simp_all add: NewVelocityPeriod_def)
    from sub0 have sub: "mset w \<subseteq># mset ?far" by (simp only: u)
    from span0 have span: "withinSpan maxDuration w" by (simp only: dp)
    show "int (length w) \<le> Threshold p"
    proof (rule ccontr)
      assume "\<not> int (length w) \<le> Threshold p"
      with p have big: "2 \<le> size (mset w)" by simp
      from sub have "size (mset w) \<le> size (mset ?far)" by (rule size_mset_mono)
      with big have sz: "size (mset w) = size (mset ?far)" by simp
      have "mset w = mset ?far"
      proof (rule ccontr)
        assume "mset w \<noteq> mset ?far"
        with sub have "mset w \<subset># mset ?far" by (simp add: subset_mset.less_le)
        then have "size (mset w) < size (mset ?far)" by (rule mset_subset_size)
        with sz show False by simp
      qed
      then have "set w = set ?far" by (rule mset_eq_setD)
      with span have "withinSpan maxDuration ?far" by (simp add: withinSpan_iff)
      with apart show False by simp
    qed
  qed
  have none: "userTxs 2 ?near = []" by (simp add: userTxs_def txAt_def)
  have unflagged: "2 \<notin> Process [NewVelocityPeriod week (- 1)] ?near"
    by code_simp
  have empty: "\<exists>p\<in>set [NewVelocityPeriod week (- 1)]. \<exists>w.
      mset w \<subseteq># mset (userTxs 2 ?near) \<and> withinSpan (Duration p) w
        \<and> int (length w) = Threshold p + 1"
    by (simp add: NewVelocityPeriod_def none withinSpan_def)
  from flagged apart sparse none unflagged empty show ?thesis by blast
qed

text \<open>
  Claim C4.  With the single period of 7 days and threshold 2, a user whose transactions
  are at \<open>t\<close>, \<open>t + 1 hour\<close> and \<open>t + 8 days\<close> is flagged by none of the three
  evaluators, under any schedule and any worker count.  On the sorted slice the left
  boundary has advanced to the third transaction when the right boundary reaches it, and
  no window exceeds size 2.
\<close>

theorem C4_scenario_outside_period:
  assumes "mset (map CreatedAt (userTxs u transactions)) = {#t, t + Hour, t + 8 * 24 * Hour#}"
  shows "u \<notin> Process [NewVelocityPeriod week 2] transactions
    \<and> (\<forall>n es F. WorkerProcess (NewWorkerVelocityProcessor [NewVelocityPeriod week 2] n) es transactions = Some F
          \<longrightarrow> u \<notin> F)
    \<and> (\<forall>n es F. ConcurrentProcess (NewConcurrentVelocityProcessor [NewVelocityPeriod week 2] n) es transactions = Some F
          \<longrightarrow> u \<notin> F)
    \<and> advanceLeft [txAt u t, txAt u (t + Hour), txAt u (t + 8 * 24 * Hour)]
          (NewVelocityPeriod week 2) 2 0 = 2
    \<and> \<not> hasViolatedVelocity [txAt u t, txAt u (t + Hour), txAt u (t + 8 * 24 * Hour)]
          (NewVelocityPeriod week 2)"
proof -
  from assms have seq: "u \<notin> Process [NewVelocityPeriod week 2] transactions"
    by (rule scenario3_Process)
  have "u \<notin> F"
    if "WorkerProcess (NewWorkerVelocityProcessor [NewVelocityPeriod week 2] n) es transactions = Some F"
    for n es F
    using pool_subset [OF that] seq by (auto simp: NewWorker_simps)
  moreover have "u \<notin> F"
    if "ConcurrentProcess (NewConcurrentVelocityProcessor [NewVelocityPeriod week 2] n) es transactions = Some F"
    for n es F
    using pipeline_subset [OF that] seq by (auto simp: NewConcurrent_simps)
  ultimately show ?thesis using seq scenario3_left [of u t] scenario3_sorted [of u t] by blast
qed

theorem C4_scenario_outside_period_witness:
  "mset (map CreatedAt (userTxs 1 [txAt 1 (8 * 24 * Hour), txAt 1 0, txAt 2 5, txAt 1 Hour]))
     = {#0, 0 + Hour, 0 + 8 * 24 * Hour#}
   \<and> 1 \<notin> Process [NewVelocityPeriod week 2] [txAt 1 (8 * 24 * Hour), txAt 1 0, txAt 2 5, txAt 1 Hour]
   \<and> hasViolatedVelocity [txAt 1 0, txAt 1 Hour, txAt 1 (8 * 24 * Hour)] (NewVelocityPeriod week 2) = False
   \<and> advanceLeft [txAt 1 0, txAt 1 Hour, txAt 1 (8 * 24 * Hour)] (NewVelocityPeriod week 2) 2 0 = 2"
proof -
  have m: "mset (map CreatedAt (userTxs 1 [txAt 1 (8 * 24 * Hour), txAt 1 0, txAt 2 5, txAt 1 Hour]))
     = {#0, 0 + Hour, 0 + 8 * 24 * Hour#}"
    by (simp add: userTxs_def txAt_def)
  have h: "hasViolatedVelocity [txAt 1 0, txAt 1 Hour, txAt 1 (8 * 24 * Hour)] (NewVelocityPeriod week 2) = False"
    by code_simp
  have a: "advanceLeft [txAt 1 0, txAt 1 Hour, txAt 1 (8 * 24 * Hour)] (NewVelocityPeriod week 2) 2 0 = 2"
    by code_simp
  from C4_scenario_outside_period [OF m] m h a show ?thesis by simp
qed

text \<open>
  Claim C5 (monotonicity).  A user flagged by \<open>Process\<close> for a transaction list stays
  flagged for every list that contains all of these transactions and possibly more, of
  that user or of others.
\<close>

theorem C5_monotonicity:
  assumes "mset transactions \<subseteq># mset transactions'"
    and "u \<in> Process periods transactions"
  shows "u \<in> Process periods transactions'"
  using assms by (rule Process_monotone)

theorem C5_monotonicity_witness:
  "mset [txAt 1 0, txAt 1 Hour, txAt 1 (2 * Hour)]
      \<subseteq># mset ([txAt 1 0, txAt 1 Hour, txAt 1 (2 * Hour)] @ [txAt 2 Hour, txAt 1 (9 * 24 * Hour)])
   \<and> 1 \<in> Process [NewVelocityPeriod week 2] [txAt 1 0, txAt 1 Hour, txAt 1 (2 * Hour)]
   \<and> 1 \<in> Process [NewVelocityPeriod week 2]
         ([txAt 1 0, txAt 1 Hour, txAt 1 (2 * Hour)] @ [txAt 2 Hour, txAt 1 (9 * 24 * Hour)])"
proof -
  have sub: "mset [txAt 1 0, txAt 1 Hour, txAt 1 (2 * Hour)]
      \<subseteq># mset ([txAt 1 0, txAt 1 Hour, txAt 1 (2 * Hour)] @ [txAt 2 Hour, txAt 1 (9 * 24 * Hour)])"
    by simp
  have flagged: "1 \<in> Process [NewVelocityPeriod week 2] [txAt 1 0, txAt 1 Hour, txAt 1 (2 * Hour)]"
    by code_simp
  from sub flagged C5_monotonicity [OF sub flagged] show ?thesis by blast
qed

text \<open>
  Claim C6 (permutation invariance).  \<open>Process\<close> returns the same flagged set for a
  transaction list and for every permutation of it; each user's transactions are sorted
  by timestamp before the window runs.
\<close>

theorem C6_permutation_invariance:
  assumes "mset transactions = mset transactions'"
  shows "Process periods transactions = Process periods transactions'"
  using assms by (rule Process_permutation)

theorem C6_permutation_invariance_witness:
  "mset [txAt 1 (3 * Hour), txAt 1 0, txAt 1 (2 * Hour), txAt 1 Hour]
     = mset [txAt 1 0, txAt 1 Hour, txAt 1 (2 * Hour), txAt 1 (3 * Hour)]
   \<and> Process [NewVelocityPeriod week 3] [txAt 1 (3 * Hour), txAt 1 0, txAt 1 (2 * Hour), txAt 1 Hour]
     = Process [NewVelocityPeriod week 3] [txAt 1 0, txAt 1 Hour, txAt 1 (2 * Hour), txAt 1 (3 * Hour)]"
proof -
  have perm: "mset [txAt 1 (3 * Hour), txAt 1 0, txAt 1 (2 * Hour), txAt 1 Hour]
     = mset [txAt 1 0, txAt 1 Hour, txAt 1 (2 * Hour), txAt 1 (3 * Hour)]"
    by simp
  from perm C6_permutation_invariance [OF perm] show ?thesis by blast
qed

text \<open>
  Claim C7.  An empty transaction list or an empty period list yields the empty flagged
  set: for the sequential evaluator, and for the two concurrent ones under every schedule
  under which they return; each of them returns under some schedule.
\<close>

theorem C7_degenerate_inputs:
  "Process periods [] = {} \<and> Process [] transactions = {}
   \<and> (\<forall>es F. WorkerProcess (NewWorkerVelocityProcessor periods n) es [] = Some F \<longrightarrow> F = {})
   \<and> (\<forall>es F. WorkerProcess (NewWorkerVelocityProcessor [] n) es transactions = Some F \<longrightarrow> F = {})
   \<and> (\<forall>es F. ConcurrentProcess (NewConcurrentVelocityProcessor periods n) es [] = Some F \<longrightarrow> F = {})
   \<and> (\<forall>es F. ConcurrentProcess (NewConcurrentVelocityProcessor [] n) es transactions = Some F \<longrightarrow> F = {})
   \<and> (\<exists>es. Cancel \<notin> set es \<and> WorkerProcess (NewWorkerVelocityProcessor periods n) es [] = Some {})
   \<and> (\<exists>es. Cancel \<notin> set es \<and> WorkerProcess (NewWorkerVelocityProcessor [] n) es transactions = Some {})
   \<and> (\<exists>es. Cancel \<notin> set es \<and> ConcurrentProcess (NewConcurrentVelocityProcessor periods n) es [] = Some {})
   \<and> (\<exists>es. Cancel \<notin> set es \<and> ConcurrentProcess (NewConcurrentVelocityProcessor [] n) es transactions = Some {})"
proof -
  have w: "F = {}" if "WorkerProcess (NewWorkerVelocityProcessor ps n) es txs = Some F"
    "Process ps txs = {}" for ps es txs F
    using pool_subset [OF that(1)] that(2) by (simp add: NewWorker_simps)
  have p: "F = {}" if "ConcurrentProcess (NewConcurrentVelocityProcessor ps n) es txs = Some F"
    "Process ps txs = {}" for ps es txs F
    using pipeline_subset [OF that(1)] that(2) by (simp add: NewConcurrent_simps)
  have we: "\<exists>es. Cancel \<notin> set es \<and> WorkerProcess (NewWorkerVelocityProcessor ps n) es txs = Some {}"
    if "Process ps txs = {}" for ps txs
  proof -
    from pool_returns [of "NewWorkerVelocityProcessor ps n" txs] obtain es F
      where "Cancel \<notin> set es" "WorkerProcess (NewWorkerVelocityProcessor ps n) es txs = Some F"
      by blast
    with w [OF _ that] show ?thesis by blast
  qed
  have pe: "\<exists>es. Cancel \<notin> set es \<and> ConcurrentProcess (NewConcurrentVelocityProcessor ps n) es txs = Some {}"
    if "Process ps txs = {}" for ps txs
  proof -
    from pipeline_returns [of "NewConcurrentVelocityProcessor ps n" txs] obtain es F
      where "Cancel \<notin> set es" "ConcurrentProcess (NewConcurrentVelocityProcessor ps n) es txs = Some F"
      by blast
    with p [OF _ that] show ?thesis by blast
  qed
  note e = Process_Nil [of periods] Process_no_periods [of transactions]
  from e w [OF _ e(1)] w [OF _ e(2)] p [OF _ e(1)] p [OF _ e(2)]
    we [OF e(1)] we [OF e(2)] pe [OF e(1)] pe [OF e(2)]
  show ?thesis by blast
qed

theorem C7_degenerate_inputs_witness:
  "WorkerProcess (NewWorkerVelocityProcessor [NewVelocityPeriod week 2] 2) scheduleEmpty [] = Some {}
   \<and> ConcurrentProcess (NewConcurrentVelocityProcessor [NewVelocityPeriod week 2] 2) scheduleEmpty [] = Some {}
   \<and> WorkerProcess (NewWorkerVelocityProcessor [] 2) schedule1
        [txAt 1 0, txAt 1 Hour, txAt 1 (2 * Hour)] = Some {}
   \<and> ConcurrentProcess (NewConcurrentVelocityProcessor [] 2) schedule1
        [txAt 1 0, txAt 1 Hour, txAt 1 (2 * Hour)] = Some {}
   \<and> Process [NewVelocityPeriod week 2] [] = {}
   \<and> Process [] [txAt 1 0, txAt 1 Hour, txAt 1 (2 * Hour)] = {}"
proof -
  have a: "WorkerProcess (NewWorkerVelocityProcessor [NewVelocityPeriod week 2] 2) scheduleEmpty [] = Some {}"
    by code_simp
  have b: "ConcurrentProcess (NewConcurrentVelocityProcessor [NewVelocityPeriod week 2] 2) scheduleEmpty [] = Some {}"
    by code_simp
  have c: "WorkerProcess (NewWorkerVelocityProcessor [] 2) schedule1
        [txAt 1 0, txAt 1 Hour, txAt 1 (2 * Hour)] = Some {}"
    by code_simp
  have d: "ConcurrentProcess (NewConcurrentVelocityProcessor [] 2) schedule1
        [txAt 1 0, txAt 1 Hour, txAt 1 (2 * Hour)] = Some {}"
    by code_simp
  from C7_degenerate_inputs [of "[NewVelocityPeriod week 2]"
      "[txAt 1 0, txAt 1 Hour, txAt 1 (2 * Hour)]" 2]
  have "Process [NewVelocityPeriod week 2] [] = {}"
    and "Process [] [txAt 1 0, txAt 1 Hour, txAt 1 (2 * Hour)] = {}"
    by blast+
  with a b c d show ?thesis by simp
qed

text \<open>
  Claim C8.  For both concurrent evaluators and every schedule: its length is bounded,
  no send on a closed channel happens, and the flagged users are among those the
  sequential evaluator flags.  Once the context is cancelled, no further call of
  \<open>processUser\<close> starts; a state in which no goroutine can move has the aggregation
  returned and every goroutine exited; and the schedule can be continued to such a state.
\<close>

theorem C8_cancellation:
  "(\<forall>es t. run (poolConfig v transactions) es (poolStart v transactions) = Some t \<longrightarrow>
       length es \<le> stepsLeft (poolStart v transactions)
       \<and> \<not> panicked t
       \<and> flaggedUsers t \<subseteq> Process (PoolPeriods v) transactions
       \<and> (cancelled t \<longrightarrow>
            (\<forall>es' t'. run (poolConfig v transactions) es' t = Some t' \<longrightarrow> started t' = started t)
          \<and> (quiescent (poolConfig v transactions) t \<longrightarrow> allExited t)
          \<and> (\<exists>es' t'. run (poolConfig v transactions) (es @ es') (poolStart v transactions) = Some t'
                \<and> allExited t')))
   \<and> (\<forall>es t. run (pipelineConfig v') es (pipelineStart v' transactions) = Some t \<longrightarrow>
       length es \<le> stepsLeft (pipelineStart v' transactions)
       \<and> \<not> panicked t
       \<and> flaggedUsers t \<subseteq> Process (PipelinePeriods v') transactions
       \<and> (cancelled t \<longrightarrow>
            (\<forall>es' t'. run (pipelineConfig v') es' t = Some t' \<longrightarrow> started t' = started t)
          \<and> (quiescent (pipelineConfig v') t \<longrightarrow> allExited t)
          \<and> (\<exists>es' t'. run (pipelineConfig v') (es @ es') (pipelineStart v' transactions) = Some t'
                \<and> allExited t')))"
proof (intro conjI allI impI)
  fix es t assume r: "run (poolConfig v transactions) es (poolStart v transactions) = Some t"
  from pool_reach [OF r]
  show "length es \<le> stepsLeft (poolStart v transactions)" "\<not> panicked t"
    "flaggedUsers t \<subseteq> Process (PoolPeriods v) transactions" .
  from pool_continues [OF r]
  show "\<exists>es' t'. run (poolConfig v transactions) (es @ es') (poolStart v transactions) = Some t'
      \<and> allExited t'" by blast
  {
    assume "quiescent (poolConfig v transactions) t"
    with r show "allExited t" by (rule pool_quiescent)
  }
  {
    fix es' t' assume "cancelled t" "run (poolConfig v transactions) es' t = Some t'"
    then show "started t' = started t" by (intro started_run)
  }
next
  fix es t assume r: "run (pipelineConfig v') es (pipelineStart v' transactions) = Some t"
  from pipeline_reach [OF r]
  show "length es \<le> stepsLeft (pipelineStart v' transactions)" "\<not> panicked t"
    "flaggedUsers t \<subseteq> Process (PipelinePeriods v') transactions" .
  {
    fix es' t' assume "cancelled t" "run (pipelineConfig v') es' t = Some t'"
    then show "started t' = started t" by (intro started_run)
  }
  assume c: "cancelled t"
  with pipeline_continues [OF r]
  show "\<exists>es' t'. run (pipelineConfig v') (es @ es') (pipelineStart v' transactions) = Some t'
      \<and> allExited t'" by blast
  {
    assume "quiescent (pipelineConfig v') t"
    with r c show "allExited t" by (intro pipeline_quiescent) simp_all
  }
qed

theorem C8_cancellation_witness:
  "WorkerProcess (NewWorkerVelocityProcessor [NewVelocityPeriod week 2] 2) scheduleCancelled
      [txAt 1 0, txAt 1 Hour, txAt 1 (2 * Hour)] = Some {}
   \<and> ConcurrentProcess (NewConcurrentVelocityProcessor [NewVelocityPeriod week 2] 2) scheduleCancelled
      [txAt 1 0, txAt 1 Hour, txAt 1 (2 * Hour)] = Some {}
   \<and> map_option (\<lambda>t. (cancelled t, allExited t, panicked t, started t))
        (run (poolConfig (NewWorkerVelocityProcessor [NewVelocityPeriod week 2] 2)
               [txAt 1 0, txAt 1 Hour, txAt 1 (2 * Hour)]) scheduleCancelled
           (poolStart (NewWorkerVelocityProcessor [NewVelocityPeriod week 2] 2)
               [txAt 1 0, txAt 1 Hour, txAt 1 (2 * Hour)]))
      = Some (True, True, False, 0)
   \<and> map_option (\<lambda>t. (cancelled t, allExited t, panicked t, started t))
        (run (pipelineConfig (NewConcurrentVelocityProcessor [NewVelocityPeriod week 2] 2))
           scheduleCancelled
           (pipelineStart (NewConcurrentVelocityProcessor [NewVelocityPeriod week 2] 2)
               [txAt 1 0, txAt 1 Hour, txAt 1 (2 * Hour)]))
      = Some (True, True, False, 0)"
proof -
  let ?txs = "[txAt 1 0, txAt 1 Hour, txAt 1 (2 * Hour)]"
  let ?w = "NewWorkerVelocityProcessor [NewVelocityPeriod week 2] 2"
  let ?p = "NewConcurrentVelocityProcessor [NewVelocityPeriod week 2] 2"
  have w: "map_option (\<lambda>t. (cancelled t, allExited t, returned t, flaggedUsers t, started t))
        (run (poolConfig ?w ?txs) scheduleCancelled (poolStart ?w ?txs))
      = Some (True, True, True, {}, 0)"
    by code_simp
  have p: "map_option (\<lambda>t. (cancelled t, allExited t, returned t, flaggedUsers t, started t))
        (run (pipelineConfig ?p) scheduleCancelled (pipelineStart ?p ?txs))
      = Some (True, True, True, {}, 0)"
    by code_simp
  from w obtain t where t: "run (poolConfig ?w ?txs) scheduleCancelled (poolStart ?w ?txs) = Some t"
      "cancelled t" "allExited t" "returned t" "flaggedUsers t = {}" "started t = 0"
    by auto
  from p obtain t' where t': "run (pipelineConfig ?p) scheduleCancelled (pipelineStart ?p ?txs) = Some t'"
      "cancelled t'" "allExited t'" "returned t'" "flaggedUsers t' = {}" "started t' = 0"
    by auto
  from C8_cancellation [of ?w ?txs ?p] t(1) t'(1) have "\<not> panicked t" "\<not> panicked t'"
    by blast+
  with t t' show ?thesis
    by (simp add: WorkerProcess_def ConcurrentProcess_def outcome_def)
qed

text \<open>
  Claim C9.  \<open>NewRuleEngine\<close> ignores its argument and returns an engine with no
  processor; a processor is in the engine only after \<open>AddRuleProcessor\<close> has appended it.
\<close>

theorem C9_NewRuleEngine_empty:
  "NewRuleEngine validators = \<lparr>processors = []\<rparr>
   \<and> NewRuleEngine validators = NewRuleEngine []
   \<and> processors (AddRuleProcessor p (NewRuleEngine validators)) = [p]"
  by (simp add: NewRuleEngine_def AddRuleProcessor_def)


text \<open>
  Claim C10.  On a heap in which the caller's slice is allocated, \<open>Process\<close> leaves every
  array that existed before the call as it was, so the caller's slice reads the same
  transactions in the same order afterwards, while the result is that of \<open>Process\<close> on
  those transactions.  Partitioning appends into arrays it allocates itself, and the
  in-place sort of any of the per-user slices, in any order and any number of times (as the
  workers of the concurrent evaluators run it), writes only to those arrays.
\<close>

theorem C10_input_slice_unchanged:
  assumes "allocated h transactions"
  shows "(\<forall>a<nextAddr h. arrays (fst (ProcessH grow periods h transactions)) a = arrays h a)
    \<and> contents (fst (ProcessH grow periods h transactions)) transactions = contents h transactions
    \<and> snd (ProcessH grow periods h transactions) = Process periods (contents h transactions)
    \<and> (\<forall>jobs flagged a. set jobs \<subseteq> set (snd (partitionLoop grow transactions 0 h [])) \<longrightarrow> a < nextAddr h
          \<longrightarrow> arrays (fst (flagUsersH periods jobs
                  (fst (partitionLoop grow transactions 0 h []), flagged))) a = arrays h a)"
proof -
  have frame: "arrays (fst (ProcessH grow periods h transactions)) a = arrays h a"
    if "a < nextAddr h" for a
    using that by (rule ProcessH_frame)
  from assms have "sliceArray transactions < nextAddr h" by (simp add: allocated_def)
  then have same: "contents (fst (ProcessH grow periods h transactions)) transactions
      = contents h transactions"
    by (simp add: contents_def frame)
  have sorts: "arrays (fst (flagUsersH periods jobs
        (fst (partitionLoop grow transactions 0 h []), flagged))) a = arrays h a"
    if sub: "set jobs \<subseteq> set (snd (partitionLoop grow transactions 0 h []))"
      and a: "a < nextAddr h" for jobs flagged a
  proof -
    obtain h1 m where p: "partitionLoop grow transactions 0 h [] = (h1, m)"
      by (cases "partitionLoop grow transactions 0 h []")
    from partitionLoop_frame [OF p, of "nextAddr h"] a
    have f: "arrays h1 a = arrays h a" "\<forall>(u, s)\<in>set m. nextAddr h \<le> sliceArray s" by auto
    with sub p have "\<forall>(u, s)\<in>set jobs. nextAddr h \<le> sliceArray s" by auto
    from flagUsersH_frame [OF this a, of periods h1 flagged] f(1) p show ?thesis by simp
  qed
  from frame same sorts ProcessH_Process [OF assms, of grow periods] show ?thesis by blast
qed

theorem C10_input_slice_unchanged_witness:
  "allocated callerHeap callerSlice
   \<and> contents callerHeap callerSlice = [txAt 1 (2 * Hour), txAt 1 0, txAt 1 Hour]
   \<and> contents (fst (ProcessH (\<lambda>c. 2 * c) [NewVelocityPeriod week 2] callerHeap callerSlice))
        callerSlice = [txAt 1 (2 * Hour), txAt 1 0, txAt 1 Hour]
   \<and> arrays (fst (ProcessH (\<lambda>c. 2 * c) [NewVelocityPeriod week 2] callerHeap callerSlice)) 3
        = [txAt 1 0, txAt 1 Hour, txAt 1 (2 * Hour), zeroTransaction]
   \<and> snd (ProcessH (\<lambda>c. 2 * c) [NewVelocityPeriod week 2] callerHeap callerSlice) = {1}"
proof -
  have al: "allocated callerHeap callerSlice"
    by (simp add: allocated_def callerHeap_def callerSlice_def)
  have c: "contents callerHeap callerSlice = [txAt 1 (2 * Hour), txAt 1 0, txAt 1 Hour]"
    by (simp add: contents_def callerHeap_def callerSlice_def)
  have s: "arrays (fst (ProcessH (\<lambda>c. 2 * c) [NewVelocityPeriod week 2] callerHeap callerSlice)) 3
        = [txAt 1 0, txAt 1 Hour, txAt 1 (2 * Hour), zeroTransaction]"
    by code_simp
  have f: "snd (ProcessH (\<lambda>c. 2 * c) [NewVelocityPeriod week 2] callerHeap callerSlice) = {1}"
    by code_simp
  from C10_input_slice_unchanged [OF al, of "\<lambda>c. 2 * c" "[NewVelocityPeriod week 2]"] al c s f
  show ?thesis by simp
qed

end
